theory Spec2Isabelle
  imports Complex_Main
begin

text \<open>
  The program \<open>inverse_kinematics.py\<close> is an interactive sketch of rods and joints. The
  user creates points and sticks between them on a canvas, locks some points as anchors
  and drags an anchor; \<open>simulate_frame\<close> then moves the unlocked points so that the sticks
  regain their lengths, by ten sweeps over the sticks in which \<open>calculate_joint\<close> corrects
  one joint and walks on along the chain. This theory models the data of the program, its
  solver and its three event handlers, and proves what holds of them.
\<close>

section \<open>Numbers and 2D vectors\<close>

text \<open>
  Positions are numpy arrays of two float64 values. The model idealises a float as an exact
  real number (no rounding, no overflow, one unsigned zero) extended with the three special
  values of IEEE arithmetic, since numpy does not raise on a division by zero: it warns and
  yields \<open>nan\<close> (for \<open>0/0\<close>) or an infinity.
\<close>

datatype npfloat = Fin real | PInf | NInf | NaN

fun fneg :: "npfloat \<Rightarrow> npfloat" where
  "fneg (Fin a) = Fin (- a)"
| "fneg PInf = NInf"
| "fneg NInf = PInf"
| "fneg NaN = NaN"

fun fadd :: "npfloat \<Rightarrow> npfloat \<Rightarrow> npfloat" where
  "fadd (Fin a) (Fin b) = Fin (a + b)"
| "fadd NaN y = NaN"
| "fadd x NaN = NaN"
| "fadd PInf NInf = NaN"
| "fadd NInf PInf = NaN"
| "fadd PInf y = PInf"
| "fadd NInf y = NInf"
| "fadd x PInf = PInf"
| "fadd x NInf = NInf"

definition fsub :: "npfloat \<Rightarrow> npfloat \<Rightarrow> npfloat" where
  "fsub x y = fadd x (fneg y)"

text \<open>The sign of an infinity scaled by a finite factor; \<open>inf * 0\<close> is \<open>nan\<close>.\<close>

definition inf_signed :: "real \<Rightarrow> npfloat" where
  "inf_signed s = (if s = 0 then NaN else if 0 < s then PInf else NInf)"

fun fmul :: "npfloat \<Rightarrow> npfloat \<Rightarrow> npfloat" where
  "fmul (Fin a) (Fin b) = Fin (a * b)"
| "fmul NaN y = NaN"
| "fmul x NaN = NaN"
| "fmul (Fin a) PInf = inf_signed a"
| "fmul (Fin a) NInf = inf_signed (- a)"
| "fmul PInf (Fin b) = inf_signed b"
| "fmul NInf (Fin b) = inf_signed (- b)"
| "fmul PInf PInf = PInf"
| "fmul NInf NInf = PInf"
| "fmul PInf NInf = NInf"
| "fmul NInf PInf = NInf"

fun fdiv :: "npfloat \<Rightarrow> npfloat \<Rightarrow> npfloat" where
  "fdiv (Fin a) (Fin b) = (if b = 0 then inf_signed a else Fin (a / b))"
| "fdiv NaN y = NaN"
| "fdiv x NaN = NaN"
| "fdiv (Fin a) y = Fin 0"
| "fdiv PInf (Fin b) = (if b < 0 then NInf else PInf)"
| "fdiv NInf (Fin b) = (if b < 0 then PInf else NInf)"
| "fdiv x y = NaN"

fun fsqrt :: "npfloat \<Rightarrow> npfloat" where
  "fsqrt (Fin a) = (if a < 0 then NaN else Fin (sqrt a))"
| "fsqrt PInf = PInf"
| "fsqrt NInf = NaN"
| "fsqrt NaN = NaN"

text \<open>The comparison \<open>x < y\<close>; every comparison with \<open>nan\<close> is false.\<close>

fun flt :: "npfloat \<Rightarrow> npfloat \<Rightarrow> bool" where
  "flt (Fin a) (Fin b) = (a < b)"
| "flt NaN y = False"
| "flt x NaN = False"
| "flt x NInf = False"
| "flt PInf y = False"
| "flt x y = True"

type_synonym vec = "npfloat \<times> npfloat"

fun vsub :: "vec \<Rightarrow> vec \<Rightarrow> vec" where
  "vsub (a, b) (c, d) = (fsub a c, fsub b d)"

fun vadd :: "vec \<Rightarrow> vec \<Rightarrow> vec" where
  "vadd (a, b) (c, d) = (fadd a c, fadd b d)"

fun vmul :: "vec \<Rightarrow> npfloat \<Rightarrow> vec" where
  "vmul (a, b) k = (fmul a k, fmul b k)"

fun vdiv :: "vec \<Rightarrow> npfloat \<Rightarrow> vec" where
  "vdiv (a, b) k = (fdiv a k, fdiv b k)"

text \<open>\<open>numpy.linalg.norm\<close> of a vector, imported by the program under the name
  \<open>distance\<close>: the square root of the dot product of the vector with itself.\<close>

fun distance :: "vec \<Rightarrow> npfloat" where
  "distance (a, b) = fsqrt (fadd (fmul a a) (fmul b b))"

section \<open>Data model\<close>

text \<open>
  Python compares points and sticks by identity. A point is identified by its index in
  \<open>Screen.points\<close> and a stick by its index in \<open>Screen.sticks\<close>: both lists only ever
  grow by \<open>append\<close>, each append holds a fresh object, and a stick is only ever created
  between members of \<open>Screen.points\<close>. The canvas handles (\<open>body\<close>, \<open>master\<close>,
  \<open>canvas\<close>) belong to the rendering and are left out, as is the list \<open>structures\<close>,
  which no method reads or writes.
\<close>

definition POINT_SIZE :: npfloat where
  "POINT_SIZE = Fin 16"

definition STICK_ITERATIONS :: nat where
  "STICK_ITERATIONS = 10"

record Point =
  position :: vec
  locked :: bool
  prevPosition :: vec

record Stick =
  pointA :: nat
  pointB :: nat
  length_s :: npfloat

record Screen =
  points :: "Point list"
  sticks :: "Stick list"
  tempPoint :: "nat option"
  moving_point :: "nat option"

datatype letter = A | B

text \<open>
  A call either returns or is cut short by Python's \<open>RecursionError\<close>. The points are
  mutated in place, so in both cases there is a state afterwards.
\<close>

datatype outcome = Returned Screen | RecursionError Screen

fun final :: "outcome \<Rightarrow> Screen" where
  "final (Returned scr) = scr"
| "final (RecursionError scr) = scr"

fun returned :: "outcome \<Rightarrow> bool" where
  "returned (Returned scr) = True"
| "returned (RecursionError scr) = False"

fun and_then :: "outcome \<Rightarrow> (Screen \<Rightarrow> outcome) \<Rightarrow> outcome" where
  "and_then (Returned scr) f = f scr"
| "and_then (RecursionError scr) f = RecursionError scr"

definition init_screen :: Screen where
  "init_screen = \<lparr>points = [], sticks = [], tempPoint = None, moving_point = None\<rparr>"

section \<open>Creating points and sticks\<close>

definition new_point :: "vec \<Rightarrow> Point" where
  "new_point p = \<lparr>position = p, locked = False, prevPosition = p\<rparr>"

definition create_point :: "Screen \<Rightarrow> int \<Rightarrow> int \<Rightarrow> Screen" where
  "create_point scr x y =
     scr\<lparr>points := points scr @ [new_point (Fin (of_int x), Fin (of_int y))]\<rparr>"

definition create_stick :: "Screen \<Rightarrow> nat \<Rightarrow> nat \<Rightarrow> Screen" where
  "create_stick scr a b =
     scr\<lparr>sticks := sticks scr @
       [\<lparr>pointA = a, pointB = b,
         length_s = distance (vsub (position (points scr ! a)) (position (points scr ! b)))\<rparr>]\<rparr>"

section \<open>The solver\<close>

text \<open>
  The loop at the end of \<open>calculate_joint\<close>: over the sticks other than the current one,
  in insertion order, it stops at the first stick that has the joint as an endpoint and
  names the end of that stick to correct next.
\<close>

fun first_touching :: "(nat \<times> Stick) list \<Rightarrow> nat \<Rightarrow> (nat \<times> letter) option" where
  "first_touching [] joint = None"
| "first_touching ((k, next_stick) # rest) joint =
     (if pointA next_stick = joint then Some (k, B)
      else if pointB next_stick = joint then Some (k, A)
      else first_touching rest joint)"

definition other_sticks :: "Screen \<Rightarrow> nat \<Rightarrow> (nat \<times> Stick) list" where
  "other_sticks scr i = filter (\<lambda>(k, s). k \<noteq> i) (enumerate 0 (sticks scr))"

definition end_of :: "Stick \<Rightarrow> letter \<Rightarrow> nat" where
  "end_of stick l = (if l = A then pointA stick else pointB stick)"

definition other_end :: "Stick \<Rightarrow> letter \<Rightarrow> nat" where
  "other_end stick l = (if l = A then pointB stick else pointA stick)"

text \<open>The assignment \<open>joint.position = prevJoint.position + direction * stick.length\<close>.\<close>

definition snap :: "Screen \<Rightarrow> nat \<Rightarrow> letter \<Rightarrow> Screen" where
  "snap scr i l =
     (let stick = sticks scr ! i;
          joint = end_of stick l;
          prevJoint = other_end stick l;
          jp = position (points scr ! joint);
          pp = position (points scr ! prevJoint);
          direction = vdiv (vsub jp pp) (distance (vsub jp pp))
      in scr\<lparr>points := (points scr)
           [joint := (points scr ! joint)\<lparr>position := vadd pp (vmul direction (length_s stick))\<rparr>]\<rparr>)"

text \<open>
  \<open>calculate_joint d scr i l\<close> is the call \<open>self.calculate_joint(stick, letter)\<close> on the
  stick of index \<open>i\<close>, with \<open>d\<close> the number of nested calls of \<open>calculate_joint\<close> the
  interpreter still accepts before it raises \<open>RecursionError\<close>. Python's recursion limit
  is a setting of the interpreter, so \<open>d\<close> is a parameter; the frames of the calls into
  numpy are not counted.
\<close>

fun calculate_joint :: "nat \<Rightarrow> Screen \<Rightarrow> nat \<Rightarrow> letter \<Rightarrow> outcome" where
  "calculate_joint 0 scr i l = RecursionError scr"
| "calculate_joint (Suc d) scr i l =
     (if locked (points scr ! end_of (sticks scr ! i) l) then Returned scr
      else (case first_touching (other_sticks scr i) (end_of (sticks scr ! i) l) of
              None \<Rightarrow> Returned (snap scr i l)
            | Some (k, l') \<Rightarrow> calculate_joint d (snap scr i l) k l'))"

text \<open>
  The inner loop of \<open>simulate_frame\<close>, over the sticks whose indices are listed, and the
  outer loop, \<open>n\<close> times over all sticks. A \<open>RecursionError\<close> ends both loops.
  \<open>simulate_frame\<close> then redraws the canvas, which changes nothing that is modelled.
\<close>

fun sweep :: "nat \<Rightarrow> Screen \<Rightarrow> nat list \<Rightarrow> outcome" where
  "sweep d scr [] = Returned scr"
| "sweep d scr (i # rest) =
     (if locked (points scr ! pointA (sticks scr ! i))
      then and_then (calculate_joint d scr i B) (\<lambda>scr'. sweep d scr' rest)
      else if locked (points scr ! pointB (sticks scr ! i))
      then and_then (calculate_joint d scr i A) (\<lambda>scr'. sweep d scr' rest)
      else sweep d scr rest)"

fun iterations :: "nat \<Rightarrow> nat \<Rightarrow> Screen \<Rightarrow> outcome" where
  "iterations 0 d scr = Returned scr"
| "iterations (Suc n) d scr =
     and_then (sweep d scr [0..<length (sticks scr)]) (iterations n d)"

definition simulate_frame :: "nat \<Rightarrow> Screen \<Rightarrow> outcome" where
  "simulate_frame d scr = iterations STICK_ITERATIONS d scr"

section \<open>Pointer events\<close>

definition near :: "vec \<Rightarrow> Point \<Rightarrow> bool" where
  "near pos point = flt (distance (vsub pos (position point))) POINT_SIZE"

fun first_near :: "vec \<Rightarrow> (nat \<times> Point) list \<Rightarrow> nat option" where
  "first_near pos [] = None"
| "first_near pos ((k, point) # rest) = (if near pos point then Some k else first_near pos rest)"

definition event_pos :: "int \<Rightarrow> int \<Rightarrow> vec" where
  "event_pos x y = (Fin (of_int x), Fin (of_int y))"

definition click :: "Screen \<Rightarrow> int \<Rightarrow> int \<Rightarrow> Screen" where
  "click scr x y =
     (case first_near (event_pos x y) (enumerate 0 (points scr)) of
        Some k \<Rightarrow> scr\<lparr>tempPoint := Some k\<rparr>
      | None \<Rightarrow> scr)"

fun last_near_locked :: "vec \<Rightarrow> (nat \<times> Point) list \<Rightarrow> nat option \<Rightarrow> nat option" where
  "last_near_locked pos [] m = m"
| "last_near_locked pos ((k, point) # rest) m =
     last_near_locked pos rest (if near pos point \<and> locked point then Some k else m)"

definition drag :: "nat \<Rightarrow> Screen \<Rightarrow> int \<Rightarrow> int \<Rightarrow> outcome" where
  "drag d scr x y =
     (let scr1 = scr\<lparr>moving_point :=
            last_near_locked (event_pos x y) (enumerate 0 (points scr)) (moving_point scr)\<rparr>
      in case moving_point scr1 of
           None \<Rightarrow> Returned scr1
         | Some m \<Rightarrow>
             simulate_frame d
               (scr1\<lparr>points := (points scr1)[m := (points scr1 ! m)\<lparr>position := event_pos x y\<rparr>]\<rparr>))"

definition release :: "Screen \<Rightarrow> int \<Rightarrow> int \<Rightarrow> Screen" where
  "release scr x y =
     (case moving_point scr of
        Some m \<Rightarrow> scr\<lparr>moving_point := None\<rparr>
      | None \<Rightarrow>
          (case first_near (event_pos x y) (enumerate 0 (points scr)) of
             Some k \<Rightarrow>
               (if tempPoint scr = Some k
                then scr\<lparr>points := (points scr)
                       [k := (points scr ! k)\<lparr>locked := \<not> locked (points scr ! k)\<rparr>]\<rparr>
                else (case tempPoint scr of
                        Some t \<Rightarrow> create_stick scr t k
                      | None \<Rightarrow> scr))
           | None \<Rightarrow> (create_point scr x y)\<lparr>tempPoint := None\<rparr>))"

text \<open>
  The Tk main loop runs one callback per event. An exception escaping a callback is
  reported by Tk and the loop goes on with the objects as the callback left them.
\<close>

datatype event = ButtonPress int int | Motion int int | ButtonRelease int int

fun handle :: "nat \<Rightarrow> Screen \<Rightarrow> event \<Rightarrow> Screen" where
  "handle d scr (ButtonPress x y) = click scr x y"
| "handle d scr (Motion x y) = final (drag d scr x y)"
| "handle d scr (ButtonRelease x y) = release scr x y"

definition mainloop :: "nat \<Rightarrow> Screen \<Rightarrow> event list \<Rightarrow> Screen" where
  "mainloop d scr evs = foldl (handle d) scr evs"

section \<open>Notions used in the statements\<close>

text \<open>A stick touches a point that is one of its two endpoints.\<close>

definition touches :: "Stick \<Rightarrow> nat \<Rightarrow> bool" where
  "touches s j \<longleftrightarrow> pointA s = j \<or> pointB s = j"

text \<open>
  Every stick of the program joins two members of \<open>Screen.points\<close>; in the model, its
  endpoints are indices into the list of points. A screen that the event handlers reach
  from the empty one is well formed in this sense (lemma \<open>reachable_wf\<close>).
\<close>

definition wf_screen :: "Screen \<Rightarrow> bool" where
  "wf_screen scr \<longleftrightarrow>
     (\<forall>s \<in> set (sticks scr). pointA s < length (points scr) \<and> pointB s < length (points scr))"

text \<open>
  What a run of the solver keeps: the sticks, the selection, the number of points, each
  point's lock flag and \<open>prevPosition\<close>, and the position of each locked point.
\<close>

definition frame_kept :: "Screen \<Rightarrow> Screen \<Rightarrow> bool" where
  "frame_kept s s' \<longleftrightarrow>
     sticks s' = sticks s \<and> tempPoint s' = tempPoint s \<and> moving_point s' = moving_point s \<and>
     length (points s') = length (points s) \<and>
     (\<forall>p < length (points s).
        locked (points s' ! p) = locked (points s ! p) \<and>
        prevPosition (points s' ! p) = prevPosition (points s ! p) \<and>
        (locked (points s ! p) \<longrightarrow> position (points s' ! p) = position (points s ! p)))"

text \<open>The position that \<open>calculate_joint\<close> assigns to a joint at \<open>jp\<close> whose stick of
  length \<open>len\<close> has its other end at \<open>pp\<close>.\<close>

definition target :: "vec \<Rightarrow> vec \<Rightarrow> npfloat \<Rightarrow> vec" where
  "target jp pp len = vadd pp (vmul (vdiv (vsub jp pp) (distance (vsub jp pp))) len)"

text \<open>
  The route of a chain walk, without the positions: \<open>next_call scr (i, l)\<close> is the
  recursive call that \<open>calculate_joint\<close> on stick \<open>i\<close> and end \<open>l\<close> goes on to, if any,
  and \<open>chain_ends d scr c\<close> holds when the walk that starts with the call \<open>c\<close> stops
  within \<open>d\<close> nested calls.
\<close>

definition next_call :: "Screen \<Rightarrow> nat \<times> letter \<Rightarrow> (nat \<times> letter) option" where
  "next_call scr c =
     (if locked (points scr ! end_of (sticks scr ! fst c) (snd c)) then None
      else first_touching (other_sticks scr (fst c)) (end_of (sticks scr ! fst c) (snd c)))"

fun chain_ends :: "nat \<Rightarrow> Screen \<Rightarrow> nat \<times> letter \<Rightarrow> bool" where
  "chain_ends 0 scr c = False"
| "chain_ends (Suc d) scr c =
     (case next_call scr c of None \<Rightarrow> True | Some c' \<Rightarrow> chain_ends d scr c')"

definition route_step :: "Screen \<Rightarrow> (nat \<times> letter) option \<Rightarrow> (nat \<times> letter) option" where
  "route_step scr x = (case x of None \<Rightarrow> None | Some c \<Rightarrow> next_call scr c)"

text \<open>The call, if any, that the sweep of \<open>simulate_frame\<close> makes on stick \<open>i\<close>.\<close>

definition starts :: "Screen \<Rightarrow> nat \<Rightarrow> letter option" where
  "starts scr i =
     (if locked (points scr ! pointA (sticks scr ! i)) then Some B
      else if locked (points scr ! pointB (sticks scr ! i)) then Some A
      else None)"

definition walks_end :: "nat \<Rightarrow> Screen \<Rightarrow> nat list \<Rightarrow> bool" where
  "walks_end d scr js \<longleftrightarrow>
     (\<forall>i \<in> set js. case starts scr i of None \<Rightarrow> True | Some l \<Rightarrow> chain_ends d scr (i, l))"

text \<open>
  The calls of \<open>calculate_joint\<close> that a sweep makes: those that \<open>simulate_frame\<close> makes
  itself, and those that a call goes on to.
\<close>

inductive called :: "Screen \<Rightarrow> nat \<times> letter \<Rightarrow> bool" for scr :: Screen where
  start: "i < length (sticks scr) \<Longrightarrow> starts scr i = Some l \<Longrightarrow> called scr (i, l)"
| step: "called scr c \<Longrightarrow> next_call scr c = Some c' \<Longrightarrow> called scr c'"

code_pred called .

text \<open>The relation between a call of \<open>calculate_joint\<close> and the call that it goes on to.\<close>

definition follows :: "Screen \<Rightarrow> ((nat \<times> letter) \<times> (nat \<times> letter)) set" where
  "follows scr = {(c, c'). next_call scr c = Some c'}"

text \<open>A stick is satisfied when its length is finite and positive and its endpoints are
  exactly that far apart.\<close>

fun is_fin :: "npfloat \<Rightarrow> bool" where
  "is_fin (Fin a) = True"
| "is_fin x = False"

definition satisfied :: "Screen \<Rightarrow> Stick \<Rightarrow> bool" where
  "satisfied scr s \<longleftrightarrow>
     is_fin (length_s s) \<and> flt (Fin 0) (length_s s) \<and>
     distance (vsub (position (points scr ! pointA s)) (position (points scr ! pointB s))) = length_s s"

section \<open>Example skeletons\<close>

definition pt :: "real \<Rightarrow> real \<Rightarrow> bool \<Rightarrow> Point" where
  "pt x y lk = \<lparr>position = (Fin x, Fin y), locked = lk, prevPosition = (Fin x, Fin y)\<rparr>"

definition stk :: "nat \<Rightarrow> nat \<Rightarrow> real \<Rightarrow> Stick" where
  "stk a b r = \<lparr>pointA = a, pointB = b, length_s = Fin r\<rparr>"

text \<open>A chain of two sticks of length 50 hanging from an anchor that has been dragged from
  \<open>(0, 0)\<close> to \<open>(-10, 0)\<close>.\<close>

definition chain_demo :: Screen where
  "chain_demo =
     \<lparr>points = [pt (-10) 0 True, pt 50 0 False, pt 100 0 False],
      sticks = [stk 0 1 50, stk 1 2 50],
      tempPoint = None, moving_point = None\<rparr>"

text \<open>The same chain after a run of the solver: both joints have been pulled towards the
  anchor, and both sticks are at their length again.\<close>

definition chain_moved :: Screen where
  "chain_moved = chain_demo\<lparr>points :=
      [pt (-10) 0 True, (pt 50 0 False)\<lparr>position := (Fin 40, Fin 0)\<rparr>,
       (pt 100 0 False)\<lparr>position := (Fin 90, Fin 0)\<rparr>]\<rparr>"

text \<open>A triangle of free joints, with the stick to the anchor created last.\<close>

definition cycle_demo :: Screen where
  "cycle_demo =
     \<lparr>points = [pt 0 0 False, pt 30 0 False, pt 0 40 False, pt (-50) 0 True],
      sticks = [stk 0 1 30, stk 1 2 50, stk 2 0 40, stk 3 0 50],
      tempPoint = None, moving_point = None\<rparr>"

text \<open>A joint shared by three sticks.\<close>

definition branch_demo :: Screen where
  "branch_demo =
     \<lparr>points = [pt 0 0 True, pt 50 0 False, pt 100 0 False, pt 50 50 False],
      sticks = [stk 0 1 50, stk 1 2 50, stk 1 3 50],
      tempPoint = None, moving_point = None\<rparr>"


text \<open>An anchor that has been dragged exactly onto the joint of its stick.\<close>

definition coincident_demo :: Screen where
  "coincident_demo =
     \<lparr>points = [pt 10 10 True, pt 10 10 False],
      sticks = [stk 0 1 25],
      tempPoint = None, moving_point = None\<rparr>"

text \<open>
  One joint held by two anchors that are too far apart: the sticks have length 1 and the
  anchors are 3 apart. \<open>circles_at p\<close> has the joint at \<open>p\<close>, and \<open>circles_step p\<close> is
  where one sweep takes the joint: onto the circle around the first anchor, then onto the
  circle around the second.
\<close>

definition circles_at :: "vec \<Rightarrow> Screen" where
  "circles_at p =
     \<lparr>points = [pt 0 0 True, pt 3 0 True, (pt 1 0 False)\<lparr>position := p\<rparr>],
      sticks = [stk 0 2 1, stk 1 2 1],
      tempPoint = None, moving_point = None\<rparr>"

definition circles_demo :: Screen where
  "circles_demo = circles_at (Fin 2, Fin 1)"

definition circles_step :: "vec \<Rightarrow> vec" where
  "circles_step p = target (target p (Fin 0, Fin 0) (Fin 1)) (Fin 3, Fin 0) (Fin 1)"

text \<open>One anchored stick of length 100 whose joint is 50 away from the anchor.\<close>

definition lone_demo :: Screen where
  "lone_demo =
     \<lparr>points = [pt 0 0 True, pt 30 40 False],
      sticks = [stk 0 1 100],
      tempPoint = None, moving_point = None\<rparr>"

text \<open>
  A joint held by two anchors: the sticks were created with the points at \<open>(0, 0)\<close>,
  \<open>(100, 0)\<close> and \<open>(1000, 0)\<close>, and the second anchor was then dragged to \<open>(2000, 0)\<close>.
\<close>

definition two_anchor_demo :: Screen where
  "two_anchor_demo =
     \<lparr>points = [pt 0 0 True, pt 2000 0 True, pt 100 0 False],
      sticks = [stk 0 2 100, stk 1 2 900],
      tempPoint = None, moving_point = None\<rparr>"

text \<open>No stick joins a point to itself.\<close>

definition no_self_stick :: "Screen \<Rightarrow> bool" where
  "no_self_stick scr \<longleftrightarrow> (\<forall>s \<in> set (sticks scr). pointA s \<noteq> pointB s)"

text \<open>What the event handlers keep true from the empty screen on: the sticks join points of
  the list, and so does the selection.\<close>

definition sound_screen :: "Screen \<Rightarrow> bool" where
  "sound_screen scr \<longleftrightarrow>
     wf_screen scr \<and> (case tempPoint scr of None \<Rightarrow> True | Some t \<Rightarrow> t < length (points scr))"

text \<open>Two points are created by releasing on empty canvas, then joined by pressing on the
  first and releasing on the second.\<close>

definition sketch_events :: "event list" where
  "sketch_events =
     [ButtonRelease 0 0, ButtonRelease 100 0, ButtonPress 0 0, ButtonRelease 100 0]"

section \<open>Properties of the solver\<close>

lemma frame_kept_refl: "frame_kept s s"
  by (simp add: frame_kept_def)

lemma frame_kept_trans: "frame_kept s s' \<Longrightarrow> frame_kept s' s'' \<Longrightarrow> frame_kept s s''"
  by (simp add: frame_kept_def)

lemma frame_kept_snap:
  "\<not> locked (points scr ! end_of (sticks scr ! i) l) \<Longrightarrow> frame_kept scr (snap scr i l)"
  by (cases "end_of (sticks scr ! i) l < length (points scr)")
     (auto simp: frame_kept_def snap_def Let_def nth_list_update)

lemma frame_kept_calculate_joint: "frame_kept scr (final (calculate_joint d scr i l))"
proof (induction d arbitrary: scr i l)
  case 0
  show ?case by (simp add: frame_kept_refl)
next
  case (Suc d)
  show ?case
  proof (cases "locked (points scr ! end_of (sticks scr ! i) l)")
    case True
    then show ?thesis by (simp add: frame_kept_refl)
  next
    case False
    then have s: "frame_kept scr (snap scr i l)" by (rule frame_kept_snap)
    show ?thesis
    proof (cases "first_touching (other_sticks scr i) (end_of (sticks scr ! i) l)")
      case None
      with False s show ?thesis by simp
    next
      case (Some c)
      obtain k l' where c: "c = (k, l')" by (cases c)
      from Suc.IH [of "snap scr i l" k l'] s
      have "frame_kept scr (final (calculate_joint d (snap scr i l) k l'))"
        by (rule frame_kept_trans [rotated])
      with False Some c show ?thesis by simp
    qed
  qed
qed

lemma final_and_then:
  "(\<And>s. frame_kept scr s \<Longrightarrow> frame_kept s (final (f s))) \<Longrightarrow> frame_kept scr (final r)
   \<Longrightarrow> frame_kept scr (final (and_then r f))"
  by (cases r) (auto intro: frame_kept_trans)

lemma frame_kept_sweep: "frame_kept scr (final (sweep d scr js))"
proof (induction js arbitrary: scr)
  case Nil
  show ?case by (simp add: frame_kept_refl)
next
  case (Cons j js)
  show ?case
    by (auto intro!: final_and_then frame_kept_calculate_joint Cons.IH)
qed

lemma frame_kept_iterations: "frame_kept scr (final (iterations n d scr))"
proof (induction n arbitrary: scr)
  case 0
  show ?case by (simp add: frame_kept_refl)
next
  case (Suc n)
  show ?case
    by (auto intro!: final_and_then frame_kept_sweep Suc.IH)
qed

lemma first_touching_enum_None:
  "first_touching (filter (\<lambda>(k, s). k \<noteq> i) (enumerate n xs)) j = None \<longleftrightarrow>
     (\<forall>k < length xs. n + k \<noteq> i \<longrightarrow> \<not> touches (xs ! k) j)"
proof (induction xs arbitrary: n)
  case Nil
  show ?case by simp
next
  case (Cons x xs)
  have "(\<forall>k < length (x # xs). n + k \<noteq> i \<longrightarrow> \<not> touches ((x # xs) ! k) j) \<longleftrightarrow>
        (n \<noteq> i \<longrightarrow> \<not> touches x j) \<and> (\<forall>k < length xs. Suc n + k \<noteq> i \<longrightarrow> \<not> touches (xs ! k) j)"
    by (auto simp: less_Suc_eq_0_disj)
  with Cons.IH [of "Suc n"] show ?case
    by (auto simp: touches_def)
qed

lemma first_touching_append:
  "first_touching (ys @ zs) j =
     (case first_touching ys j of None \<Rightarrow> first_touching zs j | Some r \<Rightarrow> Some r)"
  by (induction ys) auto

lemma other_sticks_split:
  assumes "k < length (sticks scr)"
  shows "other_sticks scr i =
     filter (\<lambda>(k, s). k \<noteq> i) (enumerate 0 (take k (sticks scr))) @
     filter (\<lambda>(k, s). k \<noteq> i) ((k, sticks scr ! k) # enumerate (Suc k) (drop (Suc k) (sticks scr)))"
proof -
  have "sticks scr = take k (sticks scr) @ sticks scr ! k # drop (Suc k) (sticks scr)"
    using assms by (rule id_take_nth_drop)
  then have "enumerate 0 (sticks scr) =
      enumerate 0 (take k (sticks scr)) @
      enumerate (0 + length (take k (sticks scr))) (sticks scr ! k # drop (Suc k) (sticks scr))"
    by (metis enumerate_append_eq)
  with assms show ?thesis
    by (simp add: other_sticks_def min_absorb2)
qed

lemma first_touching_first:
  assumes k: "k < length (sticks scr)" "k \<noteq> i" "touches (sticks scr ! k) j"
    and first: "\<forall>k' < k. k' \<noteq> i \<longrightarrow> \<not> touches (sticks scr ! k') j"
  shows "first_touching (other_sticks scr i) j =
     Some (k, if pointA (sticks scr ! k) = j then B else A)"
proof -
  have "first_touching (filter (\<lambda>(k, s). k \<noteq> i) (enumerate 0 (take k (sticks scr)))) j = None"
    using k(1) first by (simp add: first_touching_enum_None)
  with k show ?thesis
    by (auto simp: other_sticks_split [OF k(1)] first_touching_append touches_def)
qed

lemma first_touching_None:
  "first_touching (other_sticks scr i) j = None \<longleftrightarrow>
     (\<forall>k < length (sticks scr). k \<noteq> i \<longrightarrow> \<not> touches (sticks scr ! k) j)"
  by (simp add: other_sticks_def first_touching_enum_None)

lemma first_touching_Some:
  "first_touching (other_sticks scr i) j = Some (k, l) \<longleftrightarrow>
     k < length (sticks scr) \<and> k \<noteq> i \<and> touches (sticks scr ! k) j \<and>
     (\<forall>k' < k. k' \<noteq> i \<longrightarrow> \<not> touches (sticks scr ! k') j) \<and>
     l = (if pointA (sticks scr ! k) = j then B else A)"
  (is "?L \<longleftrightarrow> ?R")
proof
  assume r: ?R
  then have "first_touching (other_sticks scr i) j =
      Some (k, if pointA (sticks scr ! k) = j then B else A)"
    by (intro first_touching_first) simp_all
  with r show ?L by simp
next
  assume l: ?L
  let ?P = "\<lambda>k. k < length (sticks scr) \<and> k \<noteq> i \<and> touches (sticks scr ! k) j"
  from l have "first_touching (other_sticks scr i) j \<noteq> None" by simp
  then have ex: "\<exists>k. ?P k" by (auto simp: first_touching_None)
  define m where "m = (LEAST k. ?P k)"
  from ex have m: "?P m" unfolding m_def by (rule LeastI_ex)
  have least: "\<forall>k' < m. k' \<noteq> i \<longrightarrow> \<not> touches (sticks scr ! k') j"
  proof (intro allI impI)
    fix k' assume a: "k' < m" "k' \<noteq> i"
    from a(1) have "\<not> ?P k'" unfolding m_def by (rule not_less_Least)
    with a m show "\<not> touches (sticks scr ! k') j" by simp
  qed
  from m least have "first_touching (other_sticks scr i) j =
      Some (m, if pointA (sticks scr ! m) = j then B else A)"
    by (intro first_touching_first) simp_all
  with l have "Some (k, l) = Some (m, if pointA (sticks scr ! m) = j then B else A)"
    by (rule trans [OF sym])
  then have "k = m" "l = (if pointA (sticks scr ! m) = j then B else A)" by auto
  with m least show ?R by simp
qed

lemma calculate_joint_Suc:
  "calculate_joint (Suc d) scr i l =
     (case next_call scr (i, l) of
        None \<Rightarrow> Returned (if locked (points scr ! end_of (sticks scr ! i) l) then scr else snap scr i l)
      | Some c \<Rightarrow> calculate_joint d (snap scr i l) (fst c) (snd c))"
  by (auto simp: next_call_def split: option.splits)

lemma end_of_less:
  "wf_screen scr \<Longrightarrow> i < length (sticks scr) \<Longrightarrow> end_of (sticks scr ! i) l < length (points scr)"
  by (simp add: wf_screen_def end_of_def)

lemma other_end_less:
  "wf_screen scr \<Longrightarrow> i < length (sticks scr) \<Longrightarrow> other_end (sticks scr ! i) l < length (points scr)"
  by (simp add: wf_screen_def other_end_def)

lemma wf_screen_frame: "frame_kept scr scr' \<Longrightarrow> wf_screen scr \<Longrightarrow> wf_screen scr'"
  by (simp add: frame_kept_def wf_screen_def)

lemma next_call_frame:
  assumes "frame_kept scr scr'" "wf_screen scr" "fst c < length (sticks scr)"
  shows "next_call scr' c = next_call scr c"
proof -
  from assms have s: "sticks scr' = sticks scr" by (simp add: frame_kept_def)
  from assms(2,3) have "end_of (sticks scr ! fst c) (snd c) < length (points scr)"
    by (rule end_of_less)
  with assms(1) have "locked (points scr' ! end_of (sticks scr ! fst c) (snd c)) =
      locked (points scr ! end_of (sticks scr ! fst c) (snd c))"
    by (simp add: frame_kept_def)
  with s show ?thesis by (simp add: next_call_def other_sticks_def)
qed

lemma next_call_less: "next_call scr c = Some c' \<Longrightarrow> fst c' < length (sticks scr)"
  by (cases c') (auto simp: next_call_def first_touching_Some split: if_splits)

lemma chain_ends_frame:
  "frame_kept scr scr' \<Longrightarrow> wf_screen scr \<Longrightarrow> fst c < length (sticks scr) \<Longrightarrow>
   chain_ends d scr' c = chain_ends d scr c"
proof (induction d arbitrary: c)
  case 0
  show ?case by simp
next
  case (Suc d)
  from Suc.prems have n: "next_call scr' c = next_call scr c" by (rule next_call_frame)
  show ?case
  proof (cases "next_call scr c")
    case None
    with n show ?thesis by simp
  next
    case (Some c')
    then have "fst c' < length (sticks scr)" by (rule next_call_less)
    with Suc.IH [of c'] Suc.prems have "chain_ends d scr' c' = chain_ends d scr c'" by simp
    with n Some show ?thesis by simp
  qed
qed

lemma starts_frame:
  assumes "frame_kept scr scr'" "wf_screen scr" "i < length (sticks scr)"
  shows "starts scr' i = starts scr i"
proof -
  from assms have s: "sticks scr' = sticks scr" by (simp add: frame_kept_def)
  from assms(2,3) have "pointA (sticks scr ! i) < length (points scr)"
    "pointB (sticks scr ! i) < length (points scr)"
    by (simp_all add: wf_screen_def)
  with assms(1) s show ?thesis by (simp add: starts_def frame_kept_def)
qed

lemma returned_calculate_joint:
  "wf_screen scr \<Longrightarrow> i < length (sticks scr) \<Longrightarrow>
   returned (calculate_joint d scr i l) = chain_ends d scr (i, l)"
proof (induction d arbitrary: scr i l)
  case 0
  show ?case by simp
next
  case (Suc d)
  show ?case
  proof (cases "next_call scr (i, l)")
    case None
    then show ?thesis by (simp add: calculate_joint_Suc del: calculate_joint.simps)
  next
    case (Some c)
    then have u: "\<not> locked (points scr ! end_of (sticks scr ! i) l)"
      by (auto simp: next_call_def split: if_splits)
    then have f: "frame_kept scr (snap scr i l)" by (rule frame_kept_snap)
    from Some have k: "fst c < length (sticks scr)" by (rule next_call_less)
    from f have "sticks (snap scr i l) = sticks scr" by (simp add: frame_kept_def)
    with k Suc.IH [of "snap scr i l" "fst c" "snd c"] wf_screen_frame [OF f Suc.prems(1)]
    have "returned (calculate_joint d (snap scr i l) (fst c) (snd c)) =
        chain_ends d (snap scr i l) c" by simp
    also from f Suc.prems(1) k have "\<dots> = chain_ends d scr c" by (rule chain_ends_frame)
    finally show ?thesis using Some by (simp add: calculate_joint_Suc del: calculate_joint.simps)
  qed
qed

lemma walks_end_frame:
  assumes "frame_kept scr scr'" "wf_screen scr" "\<forall>i \<in> set js. i < length (sticks scr)"
  shows "walks_end d scr' js = walks_end d scr js"
proof -
  have "(case starts scr' i of None \<Rightarrow> True | Some l \<Rightarrow> chain_ends d scr' (i, l)) =
        (case starts scr i of None \<Rightarrow> True | Some l \<Rightarrow> chain_ends d scr (i, l))"
    if "i \<in> set js" for i
  proof -
    from that assms have i: "i < length (sticks scr)" by simp
    with assms have "starts scr' i = starts scr i" by (simp add: starts_frame)
    moreover have "chain_ends d scr' (i, l) = chain_ends d scr (i, l)" for l
      using assms i by (simp add: chain_ends_frame)
    ultimately show ?thesis by (simp split: option.splits)
  qed
  then show ?thesis by (simp add: walks_end_def)
qed

lemma sweep_Cons:
  "sweep d scr (i # rest) =
     (case starts scr i of
        None \<Rightarrow> sweep d scr rest
      | Some l \<Rightarrow> and_then (calculate_joint d scr i l) (\<lambda>scr'. sweep d scr' rest))"
  by (simp add: starts_def)

lemma returned_sweep:
  "wf_screen scr \<Longrightarrow> \<forall>i \<in> set js. i < length (sticks scr) \<Longrightarrow>
   returned (sweep d scr js) = walks_end d scr js"
proof (induction js arbitrary: scr)
  case Nil
  show ?case by (simp add: walks_end_def)
next
  case (Cons i js)
  from Cons.prems have i: "i < length (sticks scr)" and js: "\<forall>i \<in> set js. i < length (sticks scr)"
    by simp_all
  show ?case
  proof (cases "starts scr i")
    case None
    with Cons.IH [OF Cons.prems(1) js] show ?thesis
      by (simp add: sweep_Cons walks_end_def del: sweep.simps)
  next
    case (Some l)
    let ?r = "calculate_joint d scr i l"
    have f: "frame_kept scr (final ?r)" by (rule frame_kept_calculate_joint)
    have r: "returned ?r = chain_ends d scr (i, l)"
      using Cons.prems(1) i by (rule returned_calculate_joint)
    show ?thesis
    proof (cases ?r)
      case (Returned scr')
      with f have f': "frame_kept scr scr'" by simp
      then have "sticks scr' = sticks scr" by (simp add: frame_kept_def)
      with js Cons.IH [of scr'] wf_screen_frame [OF f' Cons.prems(1)]
      have "returned (sweep d scr' js) = walks_end d scr' js" by simp
      also from f' Cons.prems(1) js have "\<dots> = walks_end d scr js" by (rule walks_end_frame)
      finally show ?thesis using Some Returned r
        by (simp add: sweep_Cons walks_end_def del: sweep.simps)
    next
      case (RecursionError scr')
      with Some r show ?thesis by (simp add: sweep_Cons walks_end_def del: sweep.simps)
    qed
  qed
qed

lemma returned_iterations:
  "wf_screen scr \<Longrightarrow>
   returned (iterations n d scr) = (n = 0 \<or> walks_end d scr [0..<length (sticks scr)])"
proof (induction n arbitrary: scr)
  case 0
  show ?case by simp
next
  case (Suc n)
  let ?js = "[0..<length (sticks scr)]"
  let ?r = "sweep d scr ?js"
  have f: "frame_kept scr (final ?r)" by (rule frame_kept_sweep)
  have js: "\<forall>i \<in> set ?js. i < length (sticks scr)" by simp
  have r: "returned ?r = walks_end d scr ?js"
    using Suc.prems js by (rule returned_sweep)
  show ?case
  proof (cases ?r)
    case (Returned scr')
    with f have f': "frame_kept scr scr'" by simp
    then have s: "sticks scr' = sticks scr" by (simp add: frame_kept_def)
    from Suc.IH [of scr'] wf_screen_frame [OF f' Suc.prems]
    have "returned (iterations n d scr') = (n = 0 \<or> walks_end d scr' ?js)" by (simp add: s)
    also from f' Suc.prems js have "walks_end d scr' ?js = walks_end d scr ?js"
      by (rule walks_end_frame)
    finally show ?thesis using Returned r by auto
  next
    case (RecursionError scr')
    with r show ?thesis by simp
  qed
qed

lemma route_None: "(route_step scr ^^ d) None = None"
  by (induction d) (simp_all add: route_step_def)

lemma chain_ends_route: "chain_ends d scr c \<longleftrightarrow> (route_step scr ^^ d) (Some c) = None"
proof (induction d arbitrary: c)
  case 0
  show ?case by simp
next
  case (Suc d)
  have "(route_step scr ^^ Suc d) (Some c) = (route_step scr ^^ d) (next_call scr c)"
    by (simp add: funpow_swap1 route_step_def)
  with Suc.IH show ?case
    by (cases "next_call scr c") (simp_all add: route_None)
qed

lemma route_step_Some:
  "route_step scr x = Some c' \<Longrightarrow> \<exists>c''. x = Some c'' \<and> next_call scr c'' = Some c'"
  by (cases x) (simp_all add: route_step_def)

lemma route_less:
  "fst c < length (sticks scr) \<Longrightarrow> (route_step scr ^^ k) (Some c) = Some c' \<Longrightarrow>
   fst c' < length (sticks scr)"
proof (induction k arbitrary: c')
  case 0
  then show ?case by simp
next
  case (Suc k)
  from Suc.prems(2) have "route_step scr ((route_step scr ^^ k) (Some c)) = Some c'" by simp
  then obtain c'' where
    "(route_step scr ^^ k) (Some c) = Some c''" "next_call scr c'' = Some c'"
    using route_step_Some by blast
  then show ?case by (simp add: next_call_less)
qed

lemma chain_ends_bound:
  assumes e: "chain_ends m scr c" and c: "fst c < length (sticks scr)"
  shows "chain_ends (2 * length (sticks scr)) scr c"
proof -
  let ?g = "\<lambda>k. (route_step scr ^^ k) (Some c)"
  let ?n = "length (sticks scr)"
  define m0 where "m0 = (LEAST k. ?g k = None)"
  from e have "?g m = None" by (simp add: chain_ends_route)
  then have m0: "?g m0 = None" unfolding m0_def by (rule LeastI)
  have before: "?g k \<noteq> None" if "k < m0" for k
    using that unfolding m0_def by (rule not_less_Least)
  have inj: "inj_on ?g {..<m0}"
  proof (rule linorder_inj_onI)
    fix j k assume jk: "j < k" and "j \<in> {..<m0}" and "k \<in> {..<m0}"
    then have k: "k < m0" by simp
    show "?g j \<noteq> ?g k"
    proof
      assume eq: "?g j = ?g k"
      have "?g (m0 - k + j) = (route_step scr ^^ (m0 - k)) (?g j)" by (simp add: funpow_add)
      also have "\<dots> = (route_step scr ^^ (m0 - k)) (?g k)" by (simp only: eq)
      also have "\<dots> = ?g (m0 - k + k)" by (simp only: funpow_add o_apply)
      also from k have "\<dots> = None" by (simp add: m0)
      finally have "?g (m0 - k + j) = None" .
      moreover from jk k have "m0 - k + j < m0" by simp
      ultimately show False using before by blast
    qed
  qed (simp add: linear)
  have "?g ` {..<m0} \<subseteq> Some ` ({..<?n} \<times> {A, B})"
  proof
    fix x assume "x \<in> ?g ` {..<m0}"
    then obtain k where k: "k < m0" and x: "x = ?g k" by auto
    from before [OF k] x obtain c' where c': "?g k = Some c'" by (cases "?g k") simp_all
    with c have "fst c' < ?n" by (rule route_less)
    moreover have "snd c' \<in> {A, B}" by (cases "snd c'") simp_all
    ultimately have "c' \<in> {..<?n} \<times> {A, B}" by (cases c') simp
    with x c' show "x \<in> Some ` ({..<?n} \<times> {A, B})" by simp
  qed
  then have "card (?g ` {..<m0}) \<le> card (Some ` ({..<?n} \<times> {A, B}))"
    by (intro card_mono) simp_all
  also have "\<dots> = card ({..<?n} \<times> {A, B})" by (intro card_image) simp
  also have "\<dots> = 2 * ?n" by (simp add: card_cartesian_product)
  finally have "m0 \<le> 2 * ?n" using inj by (simp add: card_image)
  then obtain r where "2 * ?n = r + m0" by (metis le_add_diff_inverse2)
  then have "?g (2 * ?n) = (route_step scr ^^ r) (?g m0)" by (simp add: funpow_add)
  with m0 have "?g (2 * ?n) = None" by (simp add: route_None)
  then show ?thesis by (simp add: chain_ends_route)
qed

lemma snap_points:
  "points (snap scr i l) = (points scr)
     [end_of (sticks scr ! i) l := (points scr ! end_of (sticks scr ! i) l)
        \<lparr>position := target (position (points scr ! end_of (sticks scr ! i) l))
                      (position (points scr ! other_end (sticks scr ! i) l))
                      (length_s (sticks scr ! i))\<rparr>]"
  by (simp add: snap_def Let_def target_def)

lemma hyp_pos:
  fixes u v :: real
  assumes "u \<noteq> 0 \<or> v \<noteq> 0"
  shows "0 < sqrt (u * u + v * v)"
proof -
  from assms have "0 < u * u + v * v"
    by (metis add_pos_nonneg add_nonneg_pos zero_le_square not_real_square_gt_zero)
  then show ?thesis by simp
qed

lemma hyp_sq:
  fixes u v :: real
  shows "sqrt (u * u + v * v) * sqrt (u * u + v * v) = u * u + v * v"
  by (simp add: add_nonneg_nonneg)

lemma scaled_norm:
  fixes u v r :: real
  assumes "u \<noteq> 0 \<or> v \<noteq> 0"
  defines "n \<equiv> sqrt (u * u + v * v)"
  shows "sqrt ((u / n * r) * (u / n * r) + (v / n * r) * (v / n * r)) = \<bar>r\<bar>"
proof -
  from assms(1) have n: "0 < n" unfolding n_def by (rule hyp_pos)
  have nn: "n * n = u * u + v * v" unfolding n_def by (rule hyp_sq)
  have "(u / n * r) * (u / n * r) + (v / n * r) * (v / n * r) = (u * u + v * v) / (n * n) * (r * r)"
    by (simp add: add_divide_distrib distrib_right distrib_left ac_simps)
  also from n have "\<dots> = r * r" by (simp add: nn [symmetric])
  finally show ?thesis by (simp add: real_sqrt_abs2)
qed

lemma target_Fin:
  assumes "a \<noteq> c \<or> b \<noteq> d"
  shows "target (Fin a, Fin b) (Fin c, Fin d) (Fin r) =
     (Fin (c + (a - c) / sqrt ((a - c) * (a - c) + (b - d) * (b - d)) * r),
      Fin (d + (b - d) / sqrt ((a - c) * (a - c) + (b - d) * (b - d)) * r))"
proof -
  from assms have "a - c \<noteq> 0 \<or> b - d \<noteq> 0" by simp
  then have "0 < sqrt ((a - c) * (a - c) + (b - d) * (b - d))" by (rule hyp_pos)
  with assms show ?thesis
    by (auto simp: target_def fsub_def not_less [symmetric] add_nonneg_nonneg)
qed

lemma target_distance:
  assumes "a \<noteq> c \<or> b \<noteq> d"
  shows "distance (vsub (target (Fin a, Fin b) (Fin c, Fin d) (Fin r)) (Fin c, Fin d)) = Fin \<bar>r\<bar>"
    and "distance (vsub (Fin c, Fin d) (target (Fin a, Fin b) (Fin c, Fin d) (Fin r))) = Fin \<bar>r\<bar>"
proof -
  from assms have nz: "a - c \<noteq> 0 \<or> b - d \<noteq> 0" by simp
  let ?n = "sqrt ((a - c) * (a - c) + (b - d) * (b - d))"
  let ?x = "(a - c) / ?n * r" and ?y = "(b - d) / ?n * r"
  have s: "sqrt (?x * ?x + ?y * ?y) = \<bar>r\<bar>" using nz by (rule scaled_norm)
  have nn: "\<not> ?x * ?x + ?y * ?y < 0" by (simp add: not_less add_nonneg_nonneg)
  have t: "target (Fin a, Fin b) (Fin c, Fin d) (Fin r) = (Fin (c + ?x), Fin (d + ?y))"
    using assms by (rule target_Fin)
  have "distance (vsub (Fin (c + ?x), Fin (d + ?y)) (Fin c, Fin d)) = Fin (sqrt (?x * ?x + ?y * ?y))"
    using nn by (simp add: fsub_def)
  with s t show "distance (vsub (target (Fin a, Fin b) (Fin c, Fin d) (Fin r)) (Fin c, Fin d)) = Fin \<bar>r\<bar>"
    by simp
  have "distance (vsub (Fin c, Fin d) (Fin (c + ?x), Fin (d + ?y))) = Fin (sqrt (?x * ?x + ?y * ?y))"
    using nn by (simp add: fsub_def)
  with s t show "distance (vsub (Fin c, Fin d) (target (Fin a, Fin b) (Fin c, Fin d) (Fin r))) = Fin \<bar>r\<bar>"
    by simp
qed

lemma target_fixed:
  assumes "distance (vsub (Fin a, Fin b) (Fin c, Fin d)) = Fin r" "0 < r"
  shows "target (Fin a, Fin b) (Fin c, Fin d) (Fin r) = (Fin a, Fin b)"
proof -
  let ?n = "sqrt ((a - c) * (a - c) + (b - d) * (b - d))"
  have nn: "\<not> (a - c) * (a - c) + (b - d) * (b - d) < 0" by (simp add: not_less add_nonneg_nonneg)
  with assms(1) have r: "?n = r" by (simp add: fsub_def)
  with assms(2) have "a \<noteq> c \<or> b \<noteq> d" by auto
  then have "target (Fin a, Fin b) (Fin c, Fin d) (Fin r) =
     (Fin (c + (a - c) / ?n * r), Fin (d + (b - d) / ?n * r))" by (rule target_Fin)
  with r assms(2) show ?thesis by simp
qed

lemma target_coincident:
  "target (Fin a, Fin b) (Fin a, Fin b) len = (NaN, NaN)"
  by (cases len) (simp_all add: target_def fsub_def inf_signed_def)

lemma fadd_NaN_right: "fadd x NaN = NaN"
  by (cases x) simp_all

lemma target_NaN: "target (NaN, NaN) pp len = (NaN, NaN)"
  by (cases pp; cases len) (simp_all add: target_def fsub_def fadd_NaN_right)

lemma calculate_joint_invariant:
  assumes step: "\<And>s c. P s \<Longrightarrow> Q s c \<Longrightarrow>
      \<not> locked (points s ! end_of (sticks s ! fst c) (snd c)) \<Longrightarrow>
      P (snap s (fst c) (snd c)) \<and>
      (\<forall>c'. next_call s c = Some c' \<longrightarrow> Q (snap s (fst c) (snd c)) c')"
  shows "P scr \<Longrightarrow> Q scr (i, l) \<Longrightarrow> P (final (calculate_joint d scr i l))"
proof (induction d arbitrary: scr i l)
  case 0
  then show ?case by simp
next
  case (Suc d)
  show ?case
  proof (cases "locked (points scr ! end_of (sticks scr ! i) l)")
    case True
    with Suc.prems show ?thesis by simp
  next
    case False
    with step [of scr "(i, l)"] Suc.prems
    have p: "P (snap scr i l)"
      and q: "\<forall>c'. next_call scr (i, l) = Some c' \<longrightarrow> Q (snap scr i l) c'" by simp_all
    show ?thesis
    proof (cases "next_call scr (i, l)")
      case None
      with False p show ?thesis by (simp add: calculate_joint_Suc del: calculate_joint.simps)
    next
      case (Some c)
      with q have "Q (snap scr i l) (fst c, snd c)" by simp
      with p have "P (final (calculate_joint d (snap scr i l) (fst c) (snd c)))" by (rule Suc.IH)
      with Some show ?thesis by (simp add: calculate_joint_Suc del: calculate_joint.simps)
    qed
  qed
qed

lemma and_then_invariant:
  "P (final r) \<Longrightarrow> (\<And>s. P s \<Longrightarrow> P (final (f s))) \<Longrightarrow> P (final (and_then r f))"
  by (cases r) simp_all

lemma sweep_invariant:
  assumes step: "\<And>s c. P s \<Longrightarrow> Q s c \<Longrightarrow>
      \<not> locked (points s ! end_of (sticks s ! fst c) (snd c)) \<Longrightarrow>
      P (snap s (fst c) (snd c)) \<and>
      (\<forall>c'. next_call s c = Some c' \<longrightarrow> Q (snap s (fst c) (snd c)) c')"
  shows "P scr \<Longrightarrow>
    (\<And>s i l. P s \<Longrightarrow> i \<in> set js \<Longrightarrow> starts s i = Some l \<Longrightarrow> Q s (i, l)) \<Longrightarrow>
    P (final (sweep d scr js))"
proof (induction js arbitrary: scr)
  case Nil
  then show ?case by simp
next
  case (Cons i js)
  have rest: "P (final (sweep d s js))" if "P s" for s
    using that Cons.prems(2) by (intro Cons.IH) simp_all
  show ?case
  proof (cases "starts scr i")
    case None
    with rest [OF Cons.prems(1)] show ?thesis by (simp add: sweep_Cons del: sweep.simps)
  next
    case (Some l)
    with Cons.prems have "Q scr (i, l)" by simp
    then have q: "Q scr (i, l)" .
    have "P (final (calculate_joint d scr i l))"
    proof (rule calculate_joint_invariant [where P = P and Q = Q], goal_cases)
      case (1 s c)
      then show ?case by (rule step)
    next
      case 2
      show ?case by (rule Cons.prems(1))
    next
      case 3
      show ?case by (rule q)
    qed
    then have "P (final (and_then (calculate_joint d scr i l) (\<lambda>scr'. sweep d scr' js)))"
      using rest by (rule and_then_invariant)
    with Some show ?thesis by (simp add: sweep_Cons del: sweep.simps)
  qed
qed

lemma iterations_invariant:
  assumes step: "\<And>s c. P s \<Longrightarrow> Q s c \<Longrightarrow>
      \<not> locked (points s ! end_of (sticks s ! fst c) (snd c)) \<Longrightarrow>
      P (snap s (fst c) (snd c)) \<and>
      (\<forall>c'. next_call s c = Some c' \<longrightarrow> Q (snap s (fst c) (snd c)) c')"
    and start: "\<And>s i l. P s \<Longrightarrow> i < length (sticks s) \<Longrightarrow> starts s i = Some l \<Longrightarrow> Q s (i, l)"
  shows "P scr \<Longrightarrow> P (final (iterations n d scr))"
proof (induction n arbitrary: scr)
  case 0
  then show ?case by simp
next
  case (Suc n)
  have "P (final (sweep d scr [0..<length (sticks scr)]))"
  proof (rule sweep_invariant [where Q = "\<lambda>s c. Q s c \<and> length (sticks s) = length (sticks scr)"
        and P = "\<lambda>s. P s \<and> length (sticks s) = length (sticks scr)", THEN conjunct1], goal_cases)
    case (1 s c)
    with step [of s c] show ?case by (simp add: snap_def Let_def)
  next
    case 2
    from Suc.prems show ?case by simp
  next
    case (3 s i l)
    with start [of s i l] show ?case by simp
  qed
  then show ?case
    using Suc.IH by (simp add: and_then_invariant)
qed


lemma starts_Some:
  "starts s i = Some l \<Longrightarrow>
   locked (points s ! other_end (sticks s ! i) l) \<and>
   (l = A \<longrightarrow> \<not> locked (points s ! pointA (sticks s ! i)))"
  by (auto simp: starts_def other_end_def split: if_splits)


lemma nan_stays:
  assumes j: "j < length (points scr)" and nan: "position (points scr ! j) = (NaN, NaN)"
  shows "position (points (final (calculate_joint d scr i l)) ! j) = (NaN, NaN)"
proof -
  let ?P = "\<lambda>s. length (points s) = length (points scr) \<and> position (points s ! j) = (NaN, NaN)"
  have "?P (final (calculate_joint d scr i l))"
  proof (rule calculate_joint_invariant [where P = ?P and Q = "\<lambda>s c. True"], goal_cases)
    case (1 s c)
    with j show ?case
      by (cases "end_of (sticks s ! fst c) (snd c) = j") (simp_all add: snap_points target_NaN)
  next
    case 2
    from nan show ?case by simp
  next
    case 3
    show ?case by simp
  qed
  then show ?thesis by simp
qed

lemma degenerate_writes_nan:
  assumes j: "end_of (sticks scr ! i) l < length (points scr)"
    and u: "\<not> locked (points scr ! end_of (sticks scr ! i) l)"
    and pj: "position (points scr ! end_of (sticks scr ! i) l) = (Fin a, Fin b)"
    and pp: "position (points scr ! other_end (sticks scr ! i) l) = (Fin a, Fin b)"
  shows "position (points (final (calculate_joint (Suc d) scr i l)) ! end_of (sticks scr ! i) l) = (NaN, NaN)"
proof -
  let ?j = "end_of (sticks scr ! i) l"
  from j pj pp have s: "position (points (snap scr i l) ! ?j) = (NaN, NaN)"
    by (simp add: snap_points target_coincident)
  from j have len: "?j < length (points (snap scr i l))" by (simp add: snap_points)
  show ?thesis
  proof (cases "next_call scr (i, l)")
    case None
    with u s show ?thesis by (simp add: calculate_joint_Suc del: calculate_joint.simps)
  next
    case (Some c)
    from len s
    have "position (points (final (calculate_joint d (snap scr i l) (fst c) (snd c))) ! ?j) = (NaN, NaN)"
      by (rule nan_stays)
    with Some show ?thesis by (simp add: calculate_joint_Suc del: calculate_joint.simps)
  qed
qed

lemma fsub_Fin_D: "fsub x y = Fin r \<Longrightarrow> is_fin x \<and> is_fin y"
  by (cases x; cases y) (simp_all add: fsub_def)

lemma distance_Fin_D: "distance (x, y) = Fin r \<Longrightarrow> is_fin x \<and> is_fin y"
  by (cases x; cases y) (simp_all add: inf_signed_def split: if_splits)

lemma is_fin_D: "is_fin x \<Longrightarrow> \<exists>a. x = Fin a"
  by (cases x) simp_all

lemma distance_vsub_Fin_D:
  assumes "distance (vsub p q) = Fin r"
  shows "\<exists>a b c d. p = (Fin a, Fin b) \<and> q = (Fin c, Fin d)"
proof -
  obtain x y x' y' where pq: "p = (x, y)" "q = (x', y')" by (cases p; cases q)
  with assms have "is_fin (fsub x x') \<and> is_fin (fsub y y')" by (simp add: distance_Fin_D del: distance.simps)
  then obtain u v where "fsub x x' = Fin u" "fsub y y' = Fin v" using is_fin_D by blast
  then have "is_fin x \<and> is_fin x' \<and> is_fin y \<and> is_fin y'" using fsub_Fin_D by blast
  then obtain a b c d where "x = Fin a" "y = Fin b" "x' = Fin c" "y' = Fin d"
    by (cases x; cases y; cases x'; cases y') simp_all
  with pq show ?thesis by simp
qed

lemma distance_vsub_sym:
  "distance (vsub (Fin a, Fin b) (Fin c, Fin d)) = distance (vsub (Fin c, Fin d) (Fin a, Fin b))"
proof -
  have "(a - c) * (a - c) + (b - d) * (b - d) = (c - a) * (c - a) + (d - b) * (d - b)"
    by (simp add: algebra_simps)
  then show ?thesis by (simp add: fsub_def)
qed

lemma satisfied_target:
  assumes "satisfied scr s"
  shows "target (position (points scr ! pointA s)) (position (points scr ! pointB s)) (length_s s) =
      position (points scr ! pointA s)"
    and "target (position (points scr ! pointB s)) (position (points scr ! pointA s)) (length_s s) =
      position (points scr ! pointB s)"
proof -
  from assms obtain r where r: "length_s s = Fin r" "0 < r"
    and dist: "distance (vsub (position (points scr ! pointA s)) (position (points scr ! pointB s))) = Fin r"
    by (cases "length_s s") (simp_all add: satisfied_def)
  from dist obtain a b c d where p: "position (points scr ! pointA s) = (Fin a, Fin b)"
    "position (points scr ! pointB s) = (Fin c, Fin d)"
    using distance_vsub_Fin_D by blast
  from dist p have d1: "distance (vsub (Fin a, Fin b) (Fin c, Fin d)) = Fin r" by simp
  then have d2: "distance (vsub (Fin c, Fin d) (Fin a, Fin b)) = Fin r"
    by (simp only: distance_vsub_sym)
  from d1 r(2) have "target (Fin a, Fin b) (Fin c, Fin d) (Fin r) = (Fin a, Fin b)"
    by (rule target_fixed)
  with p r show "target (position (points scr ! pointA s)) (position (points scr ! pointB s)) (length_s s) =
      position (points scr ! pointA s)" by simp
  from d2 r(2) have "target (Fin c, Fin d) (Fin a, Fin b) (Fin r) = (Fin c, Fin d)"
    by (rule target_fixed)
  with p r show "target (position (points scr ! pointB s)) (position (points scr ! pointA s)) (length_s s) =
      position (points scr ! pointB s)" by simp
qed

lemma satisfied_snap:
  assumes "satisfied scr (sticks scr ! i)"
  shows "snap scr i l = scr"
proof -
  let ?s = "sticks scr ! i"
  have "target (position (points scr ! end_of ?s l)) (position (points scr ! other_end ?s l)) (length_s ?s)
      = position (points scr ! end_of ?s l)"
    using satisfied_target [OF assms] by (cases l) (simp_all add: end_of_def other_end_def)
  then have "points (snap scr i l) = points scr" by (simp add: snap_points)
  moreover have "snap scr i l = scr\<lparr>points := points (snap scr i l)\<rparr>"
    by (simp add: snap_def Let_def)
  ultimately show ?thesis by simp
qed

lemma satisfied_iterations:
  assumes "\<forall>s \<in> set (sticks scr). satisfied scr s"
  shows "final (iterations n d scr) = scr"
proof -
  let ?P = "\<lambda>s. s = scr"
  let ?Q = "\<lambda>(s :: Screen) c. fst c < length (sticks scr)"
  show ?thesis
  proof (rule iterations_invariant [where P = ?P and Q = ?Q], goal_cases)
    case (1 s c)
    then have "satisfied scr (sticks scr ! fst c)" using assms by simp
    then have "snap scr (fst c) (snd c) = scr" by (rule satisfied_snap)
    with 1 show ?case using next_call_less by auto
  next
    case (2 s i l)
    then show ?case by simp
  next
    case 3
    show ?case by simp
  qed
qed

lemma chain_ends_mono:
  assumes "chain_ends m scr c" "m \<le> d"
  shows "chain_ends d scr c"
proof -
  from assms(2) obtain r where d: "d = r + m" by (metis le_add_diff_inverse2)
  from assms(1) have "(route_step scr ^^ m) (Some c) = None" by (simp add: chain_ends_route)
  then have "(route_step scr ^^ d) (Some c) = None" by (simp add: d funpow_add route_None)
  then show ?thesis by (simp add: chain_ends_route)
qed

lemma returned_simulate_frame:
  "wf_screen scr \<Longrightarrow>
   returned (simulate_frame d scr) = walks_end d scr [0..<length (sticks scr)]"
  by (simp add: simulate_frame_def returned_iterations STICK_ITERATIONS_def)

lemma iterations_fixed:
  "sweep d s [0..<length (sticks s)] = Returned s \<Longrightarrow> iterations n d s = Returned s"
  by (induction n) simp_all

lemma iterations_after_sweep:
  assumes "sweep d scr [0..<length (sticks scr)] = Returned s"
    and "sweep d s [0..<length (sticks s)] = Returned s"
  shows "iterations (Suc n) d scr = Returned s"
  using assms by (simp add: iterations_fixed)

lemmas demo_simps = pt_def stk_def end_of_def other_end_def snap_def fsub_def other_sticks_def
  Let_def eval_nat_numeral

lemma snap_alt:
  "snap scr i l = scr\<lparr>points := (points scr)
     [end_of (sticks scr ! i) l := (points scr ! end_of (sticks scr ! i) l)
        \<lparr>position := target (position (points scr ! end_of (sticks scr ! i) l))
                      (position (points scr ! other_end (sticks scr ! i) l))
                      (length_s (sticks scr ! i))\<rparr>]\<rparr>"
  by (simp add: snap_def Let_def target_def)

lemma target_Fin_ex:
  assumes "a \<noteq> c \<or> b \<noteq> d"
  shows "\<exists>n. n = sqrt ((a - c)\<^sup>2 + (b - d)\<^sup>2) \<and> 0 < n \<and>
     target (Fin a, Fin b) (Fin c, Fin d) (Fin r) =
       (Fin (c + (a - c) / n * r), Fin (d + (b - d) / n * r))"
proof -
  from assms have "a - c \<noteq> 0 \<or> b - d \<noteq> 0" by simp
  then have "0 < sqrt ((a - c) * (a - c) + (b - d) * (b - d))" by (rule hyp_pos)
  with target_Fin [OF assms, of r] show ?thesis by (simp add: power2_eq_square)
qed

lemma returned_and_then:
  "returned (and_then r f) \<Longrightarrow> \<exists>s. r = Returned s \<and> returned (f s)"
  by (cases r) simp_all

lemma called_less: "called scr c \<Longrightarrow> fst c < length (sticks scr)"
  by (induction rule: called.induct) (simp_all add: next_call_less)

lemma single_route_iterations:
  assumes wf: "wf_screen scr" and i: "i < length (sticks scr)"
    and anchor: "locked (points scr ! other_end (sticks scr ! i) l)"
    and joint: "\<not> locked (points scr ! end_of (sticks scr ! i) l)"
    and only: "\<forall>c. called scr c \<and> end_of (sticks scr ! fst c) (snd c) = end_of (sticks scr ! i) l
        \<longrightarrow> c = (i, l)"
    and pj: "position (points scr ! end_of (sticks scr ! i) l) = (Fin a, Fin b)"
    and pa: "position (points scr ! other_end (sticks scr ! i) l) = (Fin c, Fin d)"
    and apart: "a \<noteq> c \<or> b \<noteq> d"
    and len: "length_s (sticks scr ! i) = Fin r" "0 < r"
    and run: "returned (iterations (Suc n) m scr)"
  shows "\<exists>x y. position (points (final (iterations (Suc n) m scr)) ! end_of (sticks scr ! i) l) = (Fin x, Fin y) \<and>
      position (points (final (iterations (Suc n) m scr)) ! other_end (sticks scr ! i) l) = (Fin c, Fin d) \<and>
      distance (vsub (Fin x, Fin y) (Fin c, Fin d)) = Fin r"
proof -
  let ?S = "sticks scr ! i"
  let ?j = "end_of ?S l" and ?a = "other_end ?S l"
  define Near where "Near s \<longleftrightarrow> frame_kept scr s \<and>
      (\<exists>x y. position (points s ! ?j) = (Fin x, Fin y) \<and> (x \<noteq> c \<or> y \<noteq> d))" for s
  define Done where "Done s \<longleftrightarrow> frame_kept scr s \<and>
      (\<exists>x y. position (points s ! ?j) = (Fin x, Fin y) \<and>
         distance (vsub (Fin x, Fin y) (Fin c, Fin d)) = Fin r)" for s
  let ?Q = "\<lambda>(s :: Screen) (c :: nat \<times> letter). called scr c"
  from wf i have jl: "?j < length (points scr)" by (rule end_of_less)
  from wf i have al: "?a < length (points scr)" by (rule other_end_less)
  have anchor_pos: "position (points s ! ?a) = (Fin c, Fin d)" if "frame_kept scr s" for s
    using that al anchor pa by (simp add: frame_kept_def)
  have done_near: "Near s" if "Done s" for s
  proof -
    from that obtain x y where f: "frame_kept scr s"
      and x: "position (points s ! ?j) = (Fin x, Fin y)"
      and dd: "distance (vsub (Fin x, Fin y) (Fin c, Fin d)) = Fin r"
      unfolding Done_def by blast
    have "x \<noteq> c \<or> y \<noteq> d"
    proof (rule ccontr)
      assume "\<not> (x \<noteq> c \<or> y \<noteq> d)"
      with dd have "Fin 0 = Fin r" by (simp add: fsub_def)
      with len(2) show False by simp
    qed
    with f x show ?thesis unfolding Near_def by blast
  qed
  \<comment> \<open>one correction, in any call that the run makes\<close>
  have step: "(end_of (sticks s ! fst c0) (snd c0) = ?j \<longrightarrow> Done (snap s (fst c0) (snd c0))) \<and>
      (end_of (sticks s ! fst c0) (snd c0) \<noteq> ?j \<longrightarrow> frame_kept scr (snap s (fst c0) (snd c0)) \<and>
         position (points (snap s (fst c0) (snd c0)) ! ?j) = position (points s ! ?j))"
    if near: "Near s" and c0: "called scr c0"
      and u: "\<not> locked (points s ! end_of (sticks s ! fst c0) (snd c0))" for s c0
  proof -
    from near obtain x y where f: "frame_kept scr s"
      and x: "position (points s ! ?j) = (Fin x, Fin y)" and xy: "x \<noteq> c \<or> y \<noteq> d"
      unfolding Near_def by blast
    from f have st: "sticks s = sticks scr" and pl: "length (points s) = length (points scr)"
      by (simp_all add: frame_kept_def)
    from u have "frame_kept s (snap s (fst c0) (snd c0))" by (rule frame_kept_snap)
    with f have f': "frame_kept scr (snap s (fst c0) (snd c0))" by (rule frame_kept_trans)
    show ?thesis
    proof (cases "end_of (sticks s ! fst c0) (snd c0) = ?j")
      case False
      with f' show ?thesis by (simp add: snap_points)
    next
      case True
      with st have "end_of (sticks scr ! fst c0) (snd c0) = ?j" by simp
      with c0 only have "c0 = (i, l)" by blast
      then have ki: "fst c0 = i" "snd c0 = l" by simp_all
      from xy have "distance (vsub (target (Fin x, Fin y) (Fin c, Fin d) (Fin r)) (Fin c, Fin d)) = Fin \<bar>r\<bar>"
        by (rule target_distance(1))
      with len(2) have dd: "distance (vsub (target (Fin x, Fin y) (Fin c, Fin d) (Fin r)) (Fin c, Fin d)) = Fin r"
        by simp
      from xy obtain x' y' where t': "target (Fin x, Fin y) (Fin c, Fin d) (Fin r) = (Fin x', Fin y')"
        using target_Fin by blast
      have "position (points (snap s i l) ! ?j) = target (Fin x, Fin y) (Fin c, Fin d) (Fin r)"
        using jl pl x anchor_pos [OF f] len(1) by (simp add: snap_points st)
      with t' dd have "\<exists>x y. position (points (snap s i l) ! ?j) = (Fin x, Fin y) \<and>
          distance (vsub (Fin x, Fin y) (Fin c, Fin d)) = Fin r" by simp
      with f' True ki show ?thesis unfolding Done_def by simp
    qed
  qed
  have near_step: "Near (snap s (fst c0) (snd c0))"
    if "Near s" "called scr c0" "\<not> locked (points s ! end_of (sticks s ! fst c0) (snd c0))" for s c0
  proof (cases "end_of (sticks s ! fst c0) (snd c0) = ?j")
    case True
    with step [OF that] show ?thesis by (simp add: done_near)
  next
    case False
    with step [OF that] that(1) show ?thesis unfolding Near_def by simp
  qed
  have done_step: "Done (snap s (fst c0) (snd c0))"
    if "Done s" "called scr c0" "\<not> locked (points s ! end_of (sticks s ! fst c0) (snd c0))" for s c0
  proof (cases "end_of (sticks s ! fst c0) (snd c0) = ?j")
    case True
    with step [OF done_near [OF that(1)] that(2,3)] show ?thesis by simp
  next
    case False
    with step [OF done_near [OF that(1)] that(2,3)] that(1) show ?thesis unfolding Done_def by simp
  qed
  have next_ok: "called scr c'"
    if "frame_kept scr s" "called scr c0" "next_call s c0 = Some c'" for s c0 c'
  proof -
    from that(2) have "fst c0 < length (sticks scr)" by (rule called_less)
    with that(1) wf have "next_call s c0 = next_call scr c0" by (rule next_call_frame)
    with that(3) have "next_call scr c0 = Some c'" by simp
    with that(2) show ?thesis by (rule called.step)
  qed
  have start_ok: "called scr (k, l')"
    if "frame_kept scr s" "k < length (sticks scr)" "starts s k = Some l'" for s k l'
  proof -
    from that(1) wf that(2) have "starts s k = starts scr k" by (rule starts_frame)
    with that(2,3) show ?thesis by (simp add: called.start)
  qed
  have near_call: "Near (final (calculate_joint m' s k l'))"
    if "Near s" "called scr (k, l')" for s k l' m'
  proof (rule calculate_joint_invariant [where P = Near and Q = ?Q], goal_cases)
    case (1 s c0)
    then have "Near (snap s (fst c0) (snd c0))" by (intro near_step)
    moreover from 1 have "frame_kept scr s" by (simp add: Near_def)
    ultimately show ?case using next_ok 1(2) by blast
  next
    case 2
    show ?case by (rule that(1))
  next
    case 3
    from that(2) show ?case .
  qed
  have done_call: "Done (final (calculate_joint m' s k l'))"
    if "Done s" "called scr (k, l')" for s k l' m'
  proof (rule calculate_joint_invariant [where P = Done and Q = ?Q], goal_cases)
    case (1 s c0)
    then have "Done (snap s (fst c0) (snd c0))" by (intro done_step)
    moreover from 1 have "frame_kept scr s" by (simp add: Done_def)
    ultimately show ?case using next_ok 1(2) by blast
  next
    case 2
    show ?case by (rule that(1))
  next
    case 3
    from that(2) show ?case .
  qed
  have done_sweep: "Done (final (sweep m s js))"
    if "Done s" "\<forall>k \<in> set js. k < length (sticks scr)" for s js
  proof (rule sweep_invariant [where P = Done and Q = ?Q], goal_cases)
    case (1 s c0)
    then have "Done (snap s (fst c0) (snd c0))" by (intro done_step)
    moreover from 1 have "frame_kept scr s" by (simp add: Done_def)
    ultimately show ?case using next_ok 1(2) by blast
  next
    case 2
    show ?case by (rule that(1))
  next
    case (3 s k l')
    then have "frame_kept scr s" by (simp add: Done_def)
    with 3 that(2) show ?case by (intro start_ok) simp_all
  qed
  have done_iterations: "Done (final (iterations n' m s))" if "Done s" for s n'
  proof (rule iterations_invariant [where P = Done and Q = ?Q], goal_cases)
    case (1 s c0)
    then have "Done (snap s (fst c0) (snd c0))" by (intro done_step)
    moreover from 1 have "frame_kept scr s" by (simp add: Done_def)
    ultimately show ?case using next_ok 1(2) by blast
  next
    case (2 s k l')
    then have f: "frame_kept scr s" by (simp add: Done_def)
    then have "sticks s = sticks scr" by (simp add: frame_kept_def)
    with f 2 show ?case by (intro start_ok) simp_all
  next
    case 3
    show ?case by (rule that)
  qed
  \<comment> \<open>the sweep reaches the stick\<close>
  from anchor joint have si: "starts scr i = Some l"
    by (cases l) (auto simp: starts_def end_of_def other_end_def)
  with i have ci: "called scr (i, l)" by (rule called.start)
  have progress: "Done (final (sweep m s js))"
    if "Near s" "i \<in> set js" "\<forall>k \<in> set js. k < length (sticks scr)" "returned (sweep m s js)"
    for s js
    using that
  proof (induction js arbitrary: s)
    case Nil
    then show ?case by simp
  next
    case (Cons k js)
    from Cons.prems(1) have f: "frame_kept scr s" by (simp add: Near_def)
    from Cons.prems(3) have k: "k < length (sticks scr)"
      and js: "\<forall>k \<in> set js. k < length (sticks scr)" by simp_all
    from f wf k have sk: "starts s k = starts scr k" by (rule starts_frame)
    show ?case
    proof (cases "k = i")
      case True
      with sk si have s: "starts s i = Some l" by simp
      with Cons.prems(4) True
      have "returned (and_then (calculate_joint m s i l) (\<lambda>scr'. sweep m scr' js))"
        by (simp add: sweep_Cons del: sweep.simps)
      then obtain s' where r: "calculate_joint m s i l = Returned s'"
        using returned_and_then by blast
      then obtain m' where m: "m = Suc m'" by (cases m) simp_all
      from f have st: "sticks s = sticks scr" by (simp add: frame_kept_def)
      from f jl joint have u: "\<not> locked (points s ! end_of (sticks s ! fst (i, l)) (snd (i, l)))"
        by (simp add: frame_kept_def st)
      from step [OF Cons.prems(1) ci u] st have d1: "Done (snap s i l)" by simp
      have "Done s'"
      proof (cases "next_call s (i, l)")
        case None
        with r m u have "s' = snap s i l"
          by (simp add: calculate_joint_Suc del: calculate_joint.simps)
        with d1 show ?thesis by simp
      next
        case (Some c')
        with f ci have "called scr (fst c', snd c')" using next_ok by simp
        with d1 have "Done (final (calculate_joint m' (snap s i l) (fst c') (snd c')))"
          by (rule done_call)
        moreover from Some r m have "calculate_joint m' (snap s i l) (fst c') (snd c') = Returned s'"
          by (simp add: calculate_joint_Suc del: calculate_joint.simps)
        ultimately show ?thesis by simp
      qed
      then have "Done (final (sweep m s' js))" using js by (rule done_sweep)
      with s r True show ?thesis by (simp add: sweep_Cons del: sweep.simps)
    next
      case False
      with Cons.prems(2) have ijs: "i \<in> set js" by simp
      show ?thesis
      proof (cases "starts s k")
        case None
        with Cons.prems(4) have "returned (sweep m s js)" by (simp add: sweep_Cons del: sweep.simps)
        with Cons.prems(1) ijs js have "Done (final (sweep m s js))" by (intro Cons.IH)
        with None show ?thesis by (simp add: sweep_Cons del: sweep.simps)
      next
        case (Some l')
        with Cons.prems(4)
        have "returned (and_then (calculate_joint m s k l') (\<lambda>scr'. sweep m scr' js))"
          by (simp add: sweep_Cons del: sweep.simps)
        then obtain s' where r: "calculate_joint m s k l' = Returned s'"
          and rest: "returned (sweep m s' js)"
          using returned_and_then by blast
        from f k Some have "called scr (k, l')" by (rule start_ok)
        with Cons.prems(1) have "Near (final (calculate_joint m s k l'))" by (rule near_call)
        with r have "Near s'" by simp
        with ijs js rest have "Done (final (sweep m s' js))" by (intro Cons.IH)
        with Some r show ?thesis by (simp add: sweep_Cons del: sweep.simps)
      qed
    qed
  qed
  have near0: "Near scr"
    unfolding Near_def using pj apart by (simp add: frame_kept_refl)
  from run obtain s1 where s1: "sweep m scr [0..<length (sticks scr)] = Returned s1"
    using returned_and_then by fastforce
  have "Done (final (sweep m scr [0..<length (sticks scr)]))"
    using near0 i s1 by (intro progress) simp_all
  with s1 have "Done s1" by simp
  then have "Done (final (iterations n m s1))" by (rule done_iterations)
  with s1 have d: "Done (final (iterations (Suc n) m scr))" by simp
  then have "frame_kept scr (final (iterations (Suc n) m scr))" by (simp add: Done_def)
  then have "position (points (final (iterations (Suc n) m scr)) ! ?a) = (Fin c, Fin d)"
    by (rule anchor_pos)
  with d show ?thesis unfolding Done_def by blast
qed

lemma leaf_single_route:
  assumes anchor: "locked (points scr ! other_end (sticks scr ! i) l)"
    and joint: "\<not> locked (points scr ! end_of (sticks scr ! i) l)"
    and leaf: "\<forall>k < length (sticks scr). k \<noteq> i \<longrightarrow>
        \<not> touches (sticks scr ! k) (end_of (sticks scr ! i) l)"
  shows "\<forall>c. called scr c \<and> end_of (sticks scr ! fst c) (snd c) = end_of (sticks scr ! i) l
        \<longrightarrow> c = (i, l)"
proof (intro allI impI)
  fix c0 assume c0: "called scr c0 \<and> end_of (sticks scr ! fst c0) (snd c0) = end_of (sticks scr ! i) l"
  let ?S = "sticks scr ! i"
  from c0 have k: "fst c0 < length (sticks scr)" using called_less by blast
  from c0 have "touches (sticks scr ! fst c0) (end_of ?S l)"
    by (cases "snd c0") (auto simp: touches_def end_of_def)
  with leaf k have ki: "fst c0 = i" by blast
  with c0 have e: "end_of ?S (snd c0) = end_of ?S l" by simp
  from anchor joint have "end_of ?S l \<noteq> other_end ?S l" by auto
  with e have "snd c0 = l"
    by (cases l; cases "snd c0") (simp_all add: end_of_def other_end_def)
  with ki show "c0 = (i, l)" by (cases c0) simp
qed

text \<open>The calls of a sweep in \<open>chain_demo\<close>.\<close>

lemma chain_demo_called: "called chain_demo c \<Longrightarrow> c = (0, B) \<or> c = (Suc 0, B)"
proof (induction rule: called.induct)
  case (start i l)
  then have "i = 0 \<or> i = Suc 0" by (auto simp: chain_demo_def)
  with start(2) show ?case
    by (auto simp: starts_def chain_demo_def pt_def stk_def split: if_splits)
next
  case (step c c')
  then show ?case
    by (auto simp: next_call_def chain_demo_def pt_def stk_def end_of_def other_sticks_def
        split: if_splits)
qed

section \<open>A second run on chains that are corrected along a single route\<close>

text \<open>
  A state in which every stick that a sweep corrects is satisfied is left as it is by the
  solver, in exact real arithmetic.
\<close>

lemma corrected_sticks_satisfied_fixed:
  assumes "\<forall>c. called s c \<and> \<not> locked (points s ! end_of (sticks s ! fst c) (snd c)) \<longrightarrow>
      satisfied s (sticks s ! fst c)"
  shows "final (iterations n d s) = s"
proof (rule iterations_invariant [where P = "\<lambda>s'. s' = s" and Q = "\<lambda>s' c. called s c"], goal_cases)
  case (1 s' c)
  then have "called s c \<and> \<not> locked (points s ! end_of (sticks s ! fst c) (snd c))" by simp
  with assms have "satisfied s (sticks s ! fst c)" by blast
  then have "snap s (fst c) (snd c) = s" by (rule satisfied_snap)
  with 1 show ?case using called.step by auto
next
  case (2 s' i l)
  then show ?case by (simp add: called.start)
next
  case 3
  show ?case by simp
qed

lemma chain_demo_run:
  "simulate_frame (Suc (Suc d)) chain_demo = Returned chain_moved"
proof -
  have 1: "sweep (Suc (Suc d)) chain_demo [0..<length (sticks chain_demo)] = Returned chain_moved"
    by (simp add: chain_moved_def chain_demo_def demo_simps)
  have 2: "sweep (Suc (Suc d)) chain_moved [0..<length (sticks chain_moved)] = Returned chain_moved"
    by (simp add: chain_moved_def chain_demo_def demo_simps)
  from 1 2 have "iterations (Suc 9) (Suc (Suc d)) chain_demo = Returned chain_moved"
    by (rule iterations_after_sweep)
  then show ?thesis by (simp add: simulate_frame_def STICK_ITERATIONS_def)
qed

text \<open>
  A correction whose result is finite started from finite and distinct positions, so it
  puts the stick at its length.
\<close>

lemma fadd_not_fin_left: "\<not> is_fin x \<Longrightarrow> \<not> is_fin (fadd x y)"
  by (cases x; cases y) simp_all

lemma fadd_not_fin_right: "\<not> is_fin y \<Longrightarrow> \<not> is_fin (fadd x y)"
  by (cases x; cases y) simp_all

lemma fmul_not_fin_left: "\<not> is_fin x \<Longrightarrow> \<not> is_fin (fmul x (Fin r))"
  by (cases x) (simp_all add: inf_signed_def)

lemma fsub_not_fin: "\<not> is_fin x \<or> \<not> is_fin y \<Longrightarrow> \<not> is_fin (fsub x y)"
  by (cases x; cases y) (simp_all add: fsub_def)

lemma distance_not_fin: "\<not> is_fin x \<or> \<not> is_fin y \<Longrightarrow> \<not> is_fin (distance (x, y))"
  using distance_Fin_D [of x y] by (cases "distance (x, y)") auto

lemma fdiv_not_fin: "\<not> is_fin x \<Longrightarrow> \<not> is_fin n \<Longrightarrow> \<not> is_fin (fdiv x n)"
  by (cases x; cases n) simp_all

lemma target_finite_D:
  assumes "target jp pp (Fin r) = (Fin x, Fin y)"
  shows "\<exists>a b c d. jp = (Fin a, Fin b) \<and> pp = (Fin c, Fin d) \<and> (a \<noteq> c \<or> b \<noteq> d)"
proof -
  obtain j1 j2 p1 p2 where jp: "jp = (j1, j2)" and pp: "pp = (p1, p2)" by (cases jp; cases pp)
  let ?n = "distance (vsub jp pp)"
  from assms have x: "fadd p1 (fmul (fdiv (fsub j1 p1) ?n) (Fin r)) = Fin x"
    and y: "fadd p2 (fmul (fdiv (fsub j2 p2) ?n) (Fin r)) = Fin y"
    by (simp_all add: target_def jp pp del: distance.simps)
  have p1: "is_fin p1"
  proof (rule ccontr)
    assume "\<not> is_fin p1"
    then have "\<not> is_fin (fadd p1 (fmul (fdiv (fsub j1 p1) ?n) (Fin r)))"
      by (rule fadd_not_fin_left)
    with x show False by simp
  qed
  have p2: "is_fin p2"
  proof (rule ccontr)
    assume "\<not> is_fin p2"
    then have "\<not> is_fin (fadd p2 (fmul (fdiv (fsub j2 p2) ?n) (Fin r)))"
      by (rule fadd_not_fin_left)
    with y show False by simp
  qed
  have fin: "is_fin j1 \<and> is_fin j2"
  proof (rule ccontr)
    assume bad: "\<not> (is_fin j1 \<and> is_fin j2)"
    then have "\<not> is_fin (fsub j1 p1) \<or> \<not> is_fin (fsub j2 p2)" using fsub_not_fin by blast
    then have n: "\<not> is_fin ?n" by (simp add: jp pp distance_not_fin del: distance.simps)
    from bad consider "\<not> is_fin j1" | "\<not> is_fin j2" by blast
    then show False
    proof cases
      case 1
      then have "\<not> is_fin (fsub j1 p1)" using fsub_not_fin by blast
      then have "\<not> is_fin (fdiv (fsub j1 p1) ?n)" using n by (rule fdiv_not_fin)
      then have "\<not> is_fin (fmul (fdiv (fsub j1 p1) ?n) (Fin r))" by (rule fmul_not_fin_left)
      then have "\<not> is_fin (fadd p1 (fmul (fdiv (fsub j1 p1) ?n) (Fin r)))" by (rule fadd_not_fin_right)
      with x show False by simp
    next
      case 2
      then have "\<not> is_fin (fsub j2 p2)" using fsub_not_fin by blast
      then have "\<not> is_fin (fdiv (fsub j2 p2) ?n)" using n by (rule fdiv_not_fin)
      then have "\<not> is_fin (fmul (fdiv (fsub j2 p2) ?n) (Fin r))" by (rule fmul_not_fin_left)
      then have "\<not> is_fin (fadd p2 (fmul (fdiv (fsub j2 p2) ?n) (Fin r)))" by (rule fadd_not_fin_right)
      with y show False by simp
    qed
  qed
  with p1 p2 obtain a b c d where v: "j1 = Fin a" "j2 = Fin b" "p1 = Fin c" "p2 = Fin d"
    by (cases j1; cases j2; cases p1; cases p2) simp_all
  have "a \<noteq> c \<or> b \<noteq> d"
  proof (rule ccontr)
    assume "\<not> (a \<noteq> c \<or> b \<noteq> d)"
    then have "target jp pp (Fin r) = (NaN, NaN)" by (simp add: jp pp v target_coincident)
    with assms show False by simp
  qed
  with jp pp v show ?thesis by simp
qed

lemma next_call_prev:
  assumes "next_call scr c = Some c'"
  shows "other_end (sticks scr ! fst c') (snd c') = end_of (sticks scr ! fst c) (snd c)"
proof -
  obtain k l' where c': "c' = (k, l')" by (cases c')
  let ?j = "end_of (sticks scr ! fst c) (snd c)"
  from assms c' have "first_touching (other_sticks scr (fst c)) ?j = Some (k, l')"
    by (simp add: next_call_def split: if_splits)
  then have "touches (sticks scr ! k) ?j \<and> l' = (if pointA (sticks scr ! k) = ?j then B else A)"
    by (simp only: first_touching_Some)
  then show ?thesis by (auto simp: c' touches_def other_end_def)
qed

lemma next_call_unlocked:
  "next_call scr c = Some c' \<Longrightarrow> \<not> locked (points scr ! end_of (sticks scr ! fst c) (snd c))"
  by (simp add: next_call_def split: if_splits)

lemma called_reach:
  "(c, c') \<in> (follows scr)\<^sup>* \<Longrightarrow> called scr c \<Longrightarrow> called scr c'"
  by (induction rule: rtrancl_induct) (auto simp: follows_def intro: called.step)

lemma called_from_start:
  "called scr c \<Longrightarrow>
   \<exists>i l. i < length (sticks scr) \<and> starts scr i = Some l \<and> ((i, l), c) \<in> (follows scr)\<^sup>*"
proof (induction rule: called.induct)
  case (start i l)
  then show ?case by blast
next
  case (step c c')
  then obtain i l where "i < length (sticks scr)" "starts scr i = Some l"
    "((i, l), c) \<in> (follows scr)\<^sup>*" by blast
  moreover from step(2) have "(c, c') \<in> follows scr" by (simp add: follows_def)
  ultimately show ?case by (meson rtrancl.rtrancl_into_rtrancl)
qed

lemma reach_cases:
  assumes "(c, c'') \<in> (follows scr)\<^sup>*"
  shows "c'' = c \<or> (\<exists>c'. next_call scr c = Some c' \<and> (c', c'') \<in> (follows scr)\<^sup>*)"
  using assms by (cases rule: converse_rtranclE) (auto simp: follows_def)

lemma reach_step:
  "next_call scr c = Some c' \<Longrightarrow> (c', c'') \<in> (follows scr)\<^sup>* \<Longrightarrow> (c, c'') \<in> (follows scr)\<^sup>*"
  by (simp add: follows_def converse_rtrancl_into_rtrancl)

lemma next_call_called_frame:
  "frame_kept scr s \<Longrightarrow> wf_screen scr \<Longrightarrow> called scr c \<Longrightarrow> next_call s c = next_call scr c"
  using called_less by (intro next_call_frame)

lemma called_frame:
  assumes f: "frame_kept scr s" and wf: "wf_screen scr"
  shows "called s c \<Longrightarrow> called scr c"
proof (induction rule: called.induct)
  case (start i l)
  from f have st: "sticks s = sticks scr" by (simp add: frame_kept_def)
  from start(1) have i: "i < length (sticks scr)" by (simp add: st)
  with f wf have "starts s i = starts scr i" by (rule starts_frame)
  with start(2) i show ?case by (simp add: called.start)
next
  case (step c c')
  from f wf step(3) have "next_call s c = next_call scr c" by (rule next_call_called_frame)
  with step(2,3) show ?case using called.step by simp
qed

text \<open>
  When no unlocked joint is the joint of two calls, a correction is undone by no later one:
  after a run that returns, every stick that was corrected and whose joint is at a finite
  position is at its length.
\<close>

lemma single_route_settles:
  assumes wf: "wf_screen scr"
    and single: "\<forall>c c'. called scr c \<and> called scr c' \<and>
        \<not> locked (points scr ! end_of (sticks scr ! fst c) (snd c)) \<and>
        end_of (sticks scr ! fst c) (snd c) = end_of (sticks scr ! fst c') (snd c') \<longrightarrow> c = c'"
    and lens: "\<forall>c. called scr c \<and> \<not> locked (points scr ! end_of (sticks scr ! fst c) (snd c)) \<longrightarrow>
        (\<exists>r. length_s (sticks scr ! fst c) = Fin r \<and> 0 < r)"
    and run: "returned (iterations (Suc n) d scr)"
    and c0: "called scr c0" "\<not> locked (points scr ! end_of (sticks scr ! fst c0) (snd c0))"
    and fin: "position (points (final (iterations (Suc n) d scr)) ! end_of (sticks scr ! fst c0) (snd c0)) =
        (Fin x, Fin y)"
  shows "distance (vsub (Fin x, Fin y)
      (position (points (final (iterations (Suc n) d scr)) ! other_end (sticks scr ! fst c0) (snd c0)))) =
      length_s (sticks scr ! fst c0)"
proof -
  define J where "J c = end_of (sticks scr ! fst c) (snd c)" for c
  define P where "P c = other_end (sticks scr ! fst c) (snd c)" for c
  define act where "act c \<longleftrightarrow> called scr c \<and> \<not> locked (points scr ! J c)" for c
  define K where "K s c \<longleftrightarrow> (\<forall>x y. position (points s ! J c) = (Fin x, Fin y) \<longrightarrow>
      distance (vsub (Fin x, Fin y) (position (points s ! P c))) = length_s (sticks scr ! fst c))" for s :: Screen and c
  let ?R = "follows scr"
  have single': "c = c'" if "act c" "called scr c'" "J c = J c'" for c c'
    using that single unfolding act_def J_def by blast
  have Jl: "J c < length (points scr)" if "called scr c" for c
    unfolding J_def using wf called_less [OF that] by (rule end_of_less)
  \<comment> \<open>the other end of a call that is made is locked, or the joint of the call before it\<close>
  have prev: "locked (points scr ! P c) \<or> (\<exists>c3. act c3 \<and> next_call scr c3 = Some c \<and> P c = J c3)"
    if "called scr c" for c
    using that
  proof (cases rule: called.cases)
    case (start i l)
    then show ?thesis using starts_Some [of scr i l] by (simp add: P_def)
  next
    case (step c3)
    from step(2) have "P c = J c3" unfolding P_def J_def by (rule next_call_prev)
    moreover from step(2) have "\<not> locked (points scr ! J c3)"
      unfolding J_def by (rule next_call_unlocked)
    ultimately have "act c3 \<and> next_call scr c3 = Some c \<and> P c = J c3"
      using step by (simp add: act_def)
    then show ?thesis by blast
  qed
  \<comment> \<open>a correction leaves the sticks of the calls outside the walk as they are\<close>
  have snap_keeps: "K (snap s (fst c) (snd c)) c''"
    if f: "frame_kept scr s" and c: "act c" and c'': "act c''" "(c, c'') \<notin> ?R\<^sup>*" "K s c''" for s c c''
  proof -
    from f have st: "sticks s = sticks scr" by (simp add: frame_kept_def)
    from c''(2) have ne: "c'' \<noteq> c" by auto
    have j: "J c'' \<noteq> J c"
    proof
      assume "J c'' = J c"
      with c''(1) c have "c'' = c" by (intro single') (simp_all add: act_def)
      with ne show False by simp
    qed
    have p: "P c'' \<noteq> J c"
    proof
      assume e: "P c'' = J c"
      from c''(1) have "called scr c''" by (simp add: act_def)
      from prev [OF this] show False
      proof
        assume "locked (points scr ! P c'')"
        with e c show False by (simp add: act_def)
      next
        assume "\<exists>c3. act c3 \<and> next_call scr c3 = Some c'' \<and> P c'' = J c3"
        then obtain c3 where c3: "act c3" "next_call scr c3 = Some c''" "P c'' = J c3" by blast
        with e c have "c3 = c" by (intro single') (simp_all add: act_def)
        with c3(2) have "(c, c'') \<in> ?R" by (simp add: follows_def)
        with c''(2) show False by auto
      qed
    qed
    from j p have "position (points (snap s (fst c) (snd c)) ! J c'') = position (points s ! J c'')"
      "position (points (snap s (fst c) (snd c)) ! P c'') = position (points s ! P c'')"
      by (simp_all add: snap_points st J_def)
    with c''(3) show ?thesis by (simp add: K_def)
  qed
  \<comment> \<open>a correction puts its own stick at its length, unless the result is not finite\<close>
  have snap_sets: "K (snap s (fst c) (snd c)) c" if f: "frame_kept scr s" and c: "act c" for s c
    unfolding K_def
  proof (intro allI impI)
    fix x y assume xy: "position (points (snap s (fst c) (snd c)) ! J c) = (Fin x, Fin y)"
    from f have st: "sticks s = sticks scr" and pl: "length (points s) = length (points scr)"
      by (simp_all add: frame_kept_def)
    from c have cc: "called scr c" by (simp add: act_def)
    from c lens obtain r where r: "length_s (sticks scr ! fst c) = Fin r" "0 < r"
      unfolding act_def J_def by blast
    from Jl [OF cc] pl have "J c < length (points s)" by simp
    then have new: "position (points (snap s (fst c) (snd c)) ! J c) =
        target (position (points s ! J c)) (position (points s ! P c)) (Fin r)"
      by (simp add: snap_points st J_def P_def r)
    with xy have t: "target (position (points s ! J c)) (position (points s ! P c)) (Fin r) = (Fin x, Fin y)"
      by simp
    then obtain a b c' d' where v: "position (points s ! J c) = (Fin a, Fin b)"
      "position (points s ! P c) = (Fin c', Fin d')" "a \<noteq> c' \<or> b \<noteq> d'"
      using target_finite_D by blast
    from v have "P c \<noteq> J c" by auto
    then have pp: "position (points (snap s (fst c) (snd c)) ! P c) = (Fin c', Fin d')"
      using v(2) by (simp add: snap_points st J_def)
    from v(3) have "distance (vsub (target (Fin a, Fin b) (Fin c', Fin d') (Fin r)) (Fin c', Fin d')) = Fin \<bar>r\<bar>"
      by (rule target_distance(1))
    with t v r(2) have "distance (vsub (Fin x, Fin y) (Fin c', Fin d')) = Fin r" by simp
    with pp r(1)
    show "distance (vsub (Fin x, Fin y) (position (points (snap s (fst c) (snd c)) ! P c))) =
        length_s (sticks scr ! fst c)" by simp
  qed
  \<comment> \<open>one chain walk\<close>
  have walk: "(\<forall>c''. act c'' \<and> (c, c'') \<notin> ?R\<^sup>* \<and> K s c'' \<longrightarrow>
        K (final (calculate_joint m s (fst c) (snd c))) c'') \<and>
      (returned (calculate_joint m s (fst c) (snd c)) \<longrightarrow>
        (\<forall>c''. act c'' \<and> (c, c'') \<in> ?R\<^sup>* \<longrightarrow> K (final (calculate_joint m s (fst c) (snd c))) c''))"
    if "frame_kept scr s" "called scr c" for m s c
    using that
  proof (induction m arbitrary: s c)
    case 0
    show ?case by simp
  next
    case (Suc m)
    note f = Suc.prems(1) and cc = Suc.prems(2)
    from f wf cc have nc: "next_call s c = next_call scr c" by (rule next_call_called_frame)
    from f have st: "sticks s = sticks scr" by (simp add: frame_kept_def)
    from f Jl [OF cc] have lk: "locked (points s ! J c) = locked (points scr ! J c)"
      by (simp add: frame_kept_def)
    let ?s1 = "snap s (fst c) (snd c)"
    have unfold: "calculate_joint (Suc m) s (fst c) (snd c) =
        (case next_call scr c of
           None \<Rightarrow> Returned (if locked (points scr ! J c) then s else ?s1)
         | Some c' \<Rightarrow> calculate_joint m ?s1 (fst c') (snd c'))"
      using nc lk by (simp add: calculate_joint_Suc J_def st del: calculate_joint.simps)
    show ?case
    proof (cases "next_call scr c")
      case None
      show ?thesis
      proof (cases "locked (points scr ! J c)")
        case True
        have "c'' = c" if "(c, c'') \<in> ?R\<^sup>*" for c''
          using reach_cases [OF that] None by simp
        with True show ?thesis
          by (auto simp: unfold None act_def simp del: calculate_joint.simps)
      next
        case False
        with cc have a: "act c" by (simp add: act_def)
        have "c'' = c" if "(c, c'') \<in> ?R\<^sup>*" for c''
          using reach_cases [OF that] None by simp
        with snap_keeps [OF f a] snap_sets [OF f a] False show ?thesis
          by (auto simp: unfold None simp del: calculate_joint.simps)
      qed
    next
      case (Some c')
      then have "\<not> locked (points scr ! J c)" unfolding J_def by (rule next_call_unlocked)
      with cc have a: "act c" by (simp add: act_def)
      from a lk have "\<not> locked (points s ! end_of (sticks s ! fst c) (snd c))"
        by (simp add: act_def J_def st)
      then have "frame_kept s ?s1" by (rule frame_kept_snap)
      with f have f1: "frame_kept scr ?s1" by (rule frame_kept_trans)
      from cc Some have cc': "called scr c'" by (rule called.step)
      let ?r = "calculate_joint m ?s1 (fst c') (snd c')"
      from Suc.IH [OF f1 cc']
      have ih1: "\<And>c''. act c'' \<Longrightarrow> (c', c'') \<notin> ?R\<^sup>* \<Longrightarrow> K ?s1 c'' \<Longrightarrow> K (final ?r) c''"
        and ih2: "\<And>c''. returned ?r \<Longrightarrow> act c'' \<Longrightarrow> (c', c'') \<in> ?R\<^sup>* \<Longrightarrow> K (final ?r) c''"
        by blast+
      have 1: "K (final ?r) c''" if "act c''" "(c, c'') \<notin> ?R\<^sup>*" "K s c''" for c''
      proof -
        from that(2) Some have "(c', c'') \<notin> ?R\<^sup>*" using reach_step by blast
        moreover from f a that have "K ?s1 c''" by (rule snap_keeps)
        ultimately show ?thesis using that(1) by (intro ih1)
      qed
      have 2: "K (final ?r) c''" if "returned ?r" "act c''" "(c, c'') \<in> ?R\<^sup>*" for c''
      proof (cases "(c', c'') \<in> ?R\<^sup>*")
        case True
        with that show ?thesis by (intro ih2)
      next
        case False
        with reach_cases [OF that(3)] Some have "c'' = c" by auto
        with False snap_sets [OF f a] that(2) show ?thesis by (intro ih1) simp_all
      qed
      from 1 2 show ?thesis by (simp add: unfold Some del: calculate_joint.simps)
    qed
  qed
  \<comment> \<open>one sweep\<close>
  have sweep_settles: "K (final (sweep d s js)) c''"
    if "frame_kept scr s" "\<forall>i \<in> set js. i < length (sticks scr)" "returned (sweep d s js)"
      "act c''" "K s c'' \<or> (\<exists>i \<in> set js. \<exists>l. starts scr i = Some l \<and> ((i, l), c'') \<in> ?R\<^sup>*)"
    for s js c''
    using that
  proof (induction js arbitrary: s)
    case Nil
    then show ?case by simp
  next
    case (Cons i js)
    note f = Cons.prems(1)
    from Cons.prems(2) have i: "i < length (sticks scr)"
      and js: "\<forall>i \<in> set js. i < length (sticks scr)" by simp_all
    from f wf i have si: "starts s i = starts scr i" by (rule starts_frame)
    show ?case
    proof (cases "starts scr i")
      case None
      with si Cons.prems(3) have r: "returned (sweep d s js)" by (simp add: sweep_Cons del: sweep.simps)
      from None Cons.prems(5)
      have "K s c'' \<or> (\<exists>i \<in> set js. \<exists>l. starts scr i = Some l \<and> ((i, l), c'') \<in> ?R\<^sup>*)" by auto
      with f js r Cons.prems(4) have "K (final (sweep d s js)) c''" by (intro Cons.IH)
      with None si show ?thesis by (simp add: sweep_Cons del: sweep.simps)
    next
      case (Some l)
      with si Cons.prems(3)
      have "returned (and_then (calculate_joint d s i l) (\<lambda>scr'. sweep d scr' js))"
        by (simp add: sweep_Cons del: sweep.simps)
      then obtain s' where r: "calculate_joint d s i l = Returned s'"
        and rest: "returned (sweep d s' js)"
        using returned_and_then by blast
      have "frame_kept s (final (calculate_joint d s i l))" by (rule frame_kept_calculate_joint)
      with r f have f': "frame_kept scr s'" by (simp add: frame_kept_trans)
      from i Some have ci: "called scr (i, l)" by (rule called.start)
      from walk [OF f ci, of d] r
      have w1: "\<And>c''. act c'' \<Longrightarrow> ((i, l), c'') \<notin> ?R\<^sup>* \<Longrightarrow> K s c'' \<Longrightarrow> K s' c''"
        and w2: "\<And>c''. act c'' \<Longrightarrow> ((i, l), c'') \<in> ?R\<^sup>* \<Longrightarrow> K s' c''"
        by auto
      have "K s' c'' \<or> (\<exists>i \<in> set js. \<exists>l. starts scr i = Some l \<and> ((i, l), c'') \<in> ?R\<^sup>*)"
      proof (cases "((i, l), c'') \<in> ?R\<^sup>*")
        case True
        with Cons.prems(4) show ?thesis by (simp add: w2)
      next
        case False
        with Cons.prems(5) Some
        have "K s c'' \<or> (\<exists>i \<in> set js. \<exists>l. starts scr i = Some l \<and> ((i, l), c'') \<in> ?R\<^sup>*)"
          by auto
        with False Cons.prems(4) show ?thesis using w1 by blast
      qed
      with f' js rest Cons.prems(4) have "K (final (sweep d s' js)) c''" by (intro Cons.IH)
      with Some si r show ?thesis by (simp add: sweep_Cons del: sweep.simps)
    qed
  qed
  \<comment> \<open>the iterations\<close>
  have settles: "K (final (iterations (Suc k) d s)) c''"
    if "frame_kept scr s" "returned (iterations (Suc k) d s)" "act c''" for k s c''
    using that
  proof (induction k arbitrary: s)
    case 0
    from 0(1) have st: "sticks s = sticks scr" by (simp add: frame_kept_def)
    from 0(2) obtain s1 where s1: "sweep d s [0..<length (sticks s)] = Returned s1"
      using returned_and_then by fastforce
    from 0(3) have "called scr c''" by (simp add: act_def)
    from called_from_start [OF this] have
      "\<exists>i \<in> set [0..<length (sticks scr)]. \<exists>l. starts scr i = Some l \<and> ((i, l), c'') \<in> ?R\<^sup>*"
      by auto
    with 0(1,3) s1 have "K (final (sweep d s [0..<length (sticks scr)])) c''"
      by (intro sweep_settles) (simp_all add: st)
    with s1 show ?case by (simp add: st)
  next
    case (Suc k)
    from Suc.prems(1) have st: "sticks s = sticks scr" by (simp add: frame_kept_def)
    from Suc.prems(2) obtain s1 where s1: "sweep d s [0..<length (sticks s)] = Returned s1"
      and rest: "returned (iterations (Suc k) d s1)"
      using returned_and_then [of "sweep d s [0..<length (sticks s)]" "iterations (Suc k) d"] by auto
    have "frame_kept s (final (sweep d s [0..<length (sticks s)]))" by (rule frame_kept_sweep)
    with s1 Suc.prems(1) have "frame_kept scr s1" by (simp add: frame_kept_trans)
    from this rest Suc.prems(3) have "K (final (iterations (Suc k) d s1)) c''" by (rule Suc.IH)
    with s1 show ?case by simp
  qed
  from c0 have "act c0" by (simp add: act_def J_def)
  with run have "K (final (iterations (Suc n) d scr)) c0"
    by (intro settles) (simp_all add: frame_kept_refl)
  with fin show ?thesis by (simp add: K_def J_def P_def)
qed

section \<open>A chain walk that never ends\<close>

text \<open>In \<open>cycle_demo\<close> the walk that starts at the anchor goes round the triangle.\<close>

lemma cycle_demo_route:
  "next_call cycle_demo (3, B) = Some (0, B)"
  "next_call cycle_demo (0, B) = Some (Suc 0, B)"
  "next_call cycle_demo (Suc 0, B) = Some (2, B)"
  "next_call cycle_demo (2, B) = Some (0, B)"
  by (simp_all add: next_call_def cycle_demo_def pt_def stk_def end_of_def other_sticks_def)

lemma cycle_demo_loops:
  "\<not> chain_ends d cycle_demo (0, B) \<and> \<not> chain_ends d cycle_demo (Suc 0, B) \<and>
   \<not> chain_ends d cycle_demo (2, B)"
  by (induction d) (simp_all add: cycle_demo_route)

section \<open>A joint between two anchors\<close>

lemma circles_sweep:
  "sweep (Suc (Suc d)) (circles_at p) [0..<length (sticks (circles_at p))] =
     Returned (circles_at (circles_step p))"
  by (simp add: circles_at_def circles_step_def pt_def stk_def end_of_def other_end_def
      snap_alt other_sticks_def eval_nat_numeral)

lemma circles_iterations:
  "iterations n (Suc (Suc d)) (circles_at p) = Returned (circles_at ((circles_step ^^ n) p))"
proof (induction n arbitrary: p)
  case 0
  show ?case by simp
next
  case (Suc n)
  show ?case
    by (simp only: iterations.simps circles_sweep and_then.simps Suc.IH funpow_Suc_right o_apply)
qed

lemma circles_step_descends:
  assumes "1 \<le> x" "0 < y"
  shows "\<exists>x' y'. circles_step (Fin x, Fin y) = (Fin x', Fin y') \<and> 1 \<le> x' \<and> 0 < y' \<and> y' < y"
proof -
  from assms have "x \<noteq> 0 \<or> y \<noteq> 0" by simp
  from target_Fin_ex [OF this, of 1] obtain n where n: "n = sqrt ((x - 0)\<^sup>2 + (y - 0)\<^sup>2)" "0 < n"
    and t1: "target (Fin x, Fin y) (Fin 0, Fin 0) (Fin 1) = (Fin (0 + (x - 0) / n * 1), Fin (0 + (y - 0) / n * 1))"
    by blast
  let ?px = "x / n" and ?py = "y / n"
  from t1 have t1': "target (Fin x, Fin y) (Fin 0, Fin 0) (Fin 1) = (Fin ?px, Fin ?py)" by simp
  from n have n_def: "n = sqrt (x\<^sup>2 + y\<^sup>2)" by simp
  from assms(1) have "1 \<le> x\<^sup>2" by (rule one_le_power)
  moreover from assms(2) have "0 < y\<^sup>2" by simp
  ultimately have "1 < x\<^sup>2 + y\<^sup>2" by linarith
  then have n1: "1 < n" by (simp add: n_def)
  have "\<bar>x\<bar> \<le> n" unfolding n_def by (rule real_sqrt_ge_abs1)
  with n(2) have px1: "?px \<le> 1" by (simp add: field_simps)
  from assms n(2) have py0: "0 < ?py" by simp
  from assms n1 have pyy: "?py < y" by (simp add: field_simps)
  from px1 have "?px \<noteq> 3 \<or> ?py \<noteq> 0" by simp
  from target_Fin_ex [OF this, of 1] obtain m where m: "m = sqrt ((?px - 3)\<^sup>2 + (?py - 0)\<^sup>2)" "0 < m"
    and t2: "target (Fin ?px, Fin ?py) (Fin 3, Fin 0) (Fin 1) =
      (Fin (3 + (?px - 3) / m * 1), Fin (0 + (?py - 0) / m * 1))"
    by blast
  have "\<bar>?px - 3\<bar> \<le> m" unfolding m(1) by (rule real_sqrt_ge_abs1)
  with px1 have m2: "3 - ?px \<le> m" "2 \<le> m" by simp_all
  let ?x' = "3 + (?px - 3) / m" and ?y' = "?py / m"
  from m2 m(2) have "- 1 \<le> (?px - 3) / m" by (simp add: field_simps)
  then have x': "1 \<le> ?x'" by simp
  from py0 m(2) have y'0: "0 < ?y'" by (rule divide_pos_pos)
  have "?py / m \<le> ?py / 1" using m2(2) py0 by (intro divide_left_mono) simp_all
  then have "?y' \<le> ?py" by simp
  with pyy have y'y: "?y' < y" by simp
  from t1' t2 have "circles_step (Fin x, Fin y) = (Fin ?x', Fin ?y')"
    by (simp add: circles_step_def)
  with x' y'0 y'y show ?thesis by blast
qed

lemma circles_steps_descend:
  assumes "1 \<le> x" "0 < y"
  shows "\<exists>x' y'. (circles_step ^^ Suc n) (Fin x, Fin y) = (Fin x', Fin y') \<and> 1 \<le> x' \<and> 0 < y' \<and> y' < y"
proof (induction n)
  case 0
  from circles_step_descends [OF assms] show ?case by simp
next
  case (Suc n)
  then obtain x1 y1 where 1: "(circles_step ^^ Suc n) (Fin x, Fin y) = (Fin x1, Fin y1)"
    "1 \<le> x1" "0 < y1" "y1 < y" by blast
  from circles_step_descends [OF 1(2,3)] obtain x2 y2 where
    2: "circles_step (Fin x1, Fin y1) = (Fin x2, Fin y2)" "1 \<le> x2" "0 < y2" "y2 < y1" by blast
  from 1(1) 2(1) have "(circles_step ^^ Suc (Suc n)) (Fin x, Fin y) = (Fin x2, Fin y2)" by simp
  moreover from 2(4) 1(4) have "y2 < y" by simp
  ultimately show ?case using 2(2,3) by blast
qed

section \<open>Properties of the event handlers\<close>

lemma first_near_less:
  "first_near pos (enumerate n ps) = Some k \<Longrightarrow> n \<le> k \<and> k < n + length ps"
proof (induction ps arbitrary: n)
  case Nil
  then show ?case by simp
next
  case (Cons p ps)
  show ?case
  proof (cases "near pos p")
    case True
    with Cons.prems show ?thesis by simp
  next
    case False
    with Cons.prems have "first_near pos (enumerate (Suc n) ps) = Some k" by simp
    then have "Suc n \<le> k \<and> k < Suc n + length ps" by (rule Cons.IH)
    then show ?thesis by simp
  qed
qed

lemma sticks_click: "sticks (click scr x y) = sticks scr"
  by (simp add: click_def split: option.splits)

lemma frame_kept_simulate_frame: "frame_kept scr (final (simulate_frame d scr))"
  unfolding simulate_frame_def by (rule frame_kept_iterations)

lemma sticks_drag: "sticks (final (drag d scr x y)) = sticks scr"
proof -
  have "sticks (final (simulate_frame d s)) = sticks s" for s
    using frame_kept_simulate_frame [of s d] by (simp add: frame_kept_def)
  then show ?thesis by (simp add: drag_def Let_def split: option.splits)
qed

lemma length_points_drag: "length (points (final (drag d scr x y))) = length (points scr)"
proof -
  have "length (points (final (simulate_frame d s))) = length (points s)" for s
    using frame_kept_simulate_frame [of s d] by (simp add: frame_kept_def)
  then show ?thesis by (simp add: drag_def Let_def split: option.splits)
qed

lemma tempPoint_drag: "tempPoint (final (drag d scr x y)) = tempPoint scr"
proof -
  have "tempPoint (final (simulate_frame d s)) = tempPoint s" for s
    using frame_kept_simulate_frame [of s d] by (simp add: frame_kept_def)
  then show ?thesis by (simp add: drag_def Let_def split: option.splits)
qed

lemma release_cases:
  "sticks (release scr x y) = sticks scr \<and>
     length (points scr) \<le> length (points (release scr x y)) \<and>
     (tempPoint (release scr x y) = tempPoint scr \<or> tempPoint (release scr x y) = None) \<or>
   (\<exists>t k. t \<noteq> k \<and> tempPoint scr = Some t \<and> k < length (points scr) \<and>
      release scr x y = create_stick scr t k)"
proof (cases "moving_point scr")
  case (Some m)
  then show ?thesis by (simp add: release_def)
next
  case None
  show ?thesis
  proof (cases "first_near (event_pos x y) (enumerate 0 (points scr))")
    case None
    with \<open>moving_point scr = None\<close> show ?thesis by (simp add: release_def create_point_def)
  next
    case (Some k)
    then have k: "k < length (points scr)" using first_near_less by fastforce
    show ?thesis
    proof (cases "tempPoint scr")
      case None
      with Some \<open>moving_point scr = None\<close> show ?thesis by (simp add: release_def)
    next
      case (Some t)
      with \<open>first_near (event_pos x y) (enumerate 0 (points scr)) = Some k\<close>
        \<open>moving_point scr = None\<close> k
      show ?thesis by (cases "t = k") (auto simp: release_def)
    qed
  qed
qed

lemma take_sticks_trans:
  assumes "take (length xs) ys = xs" "take (length ys) zs = ys"
  shows "take (length xs) zs = xs"
proof -
  have "length (take (length xs) ys) \<le> length ys" by simp
  with assms(1) have "length xs \<le> length ys" by simp
  then have "take (length xs) zs = take (length xs) (take (length ys) zs)" by (simp add: min_absorb1)
  with assms show ?thesis by simp
qed

lemma sticks_handle: "take (length (sticks scr)) (sticks (handle d scr ev)) = sticks scr"
proof (cases ev)
  case (ButtonPress x y)
  then show ?thesis by (simp add: sticks_click)
next
  case (Motion x y)
  then show ?thesis by (simp add: sticks_drag)
next
  case (ButtonRelease x y)
  from release_cases [of scr x y] have "take (length (sticks scr)) (sticks (release scr x y)) = sticks scr"
    by (auto simp: create_stick_def)
  with ButtonRelease show ?thesis by simp
qed

lemma sticks_mainloop: "take (length (sticks scr)) (sticks (mainloop d scr evs)) = sticks scr"
proof (induction evs arbitrary: scr)
  case Nil
  show ?case by (simp add: mainloop_def)
next
  case (Cons ev evs)
  have "take (length (sticks scr)) (sticks (handle d scr ev)) = sticks scr" by (rule sticks_handle)
  moreover have "take (length (sticks (handle d scr ev))) (sticks (mainloop d (handle d scr ev) evs)) =
      sticks (handle d scr ev)" by (rule Cons.IH)
  ultimately have "take (length (sticks scr)) (sticks (mainloop d (handle d scr ev) evs)) = sticks scr"
    by (rule take_sticks_trans)
  then show ?case by (simp add: mainloop_def)
qed

lemma no_self_stick_handle: "no_self_stick scr \<Longrightarrow> no_self_stick (handle d scr ev)"
proof (cases ev)
  case (ButtonPress x y)
  assume "no_self_stick scr"
  with ButtonPress show ?thesis by (simp add: no_self_stick_def sticks_click)
next
  case (Motion x y)
  assume "no_self_stick scr"
  with Motion show ?thesis by (simp add: no_self_stick_def sticks_drag)
next
  case (ButtonRelease x y)
  assume "no_self_stick scr"
  with release_cases [of scr x y] have "no_self_stick (release scr x y)"
    by (auto simp: no_self_stick_def create_stick_def)
  with ButtonRelease show ?thesis by simp
qed

lemma no_self_stick_mainloop: "no_self_stick scr \<Longrightarrow> no_self_stick (mainloop d scr evs)"
proof (induction evs arbitrary: scr)
  case Nil
  then show ?case by (simp add: mainloop_def)
next
  case (Cons ev evs)
  from Cons.prems have "no_self_stick (handle d scr ev)" by (rule no_self_stick_handle)
  then have "no_self_stick (mainloop d (handle d scr ev) evs)" by (rule Cons.IH)
  then show ?case by (simp add: mainloop_def)
qed

lemma sound_handle: "sound_screen scr \<Longrightarrow> sound_screen (handle d scr ev)"
proof (cases ev)
  case (ButtonPress x y)
  assume s: "sound_screen scr"
  show ?thesis
  proof (cases "first_near (event_pos x y) (enumerate 0 (points scr))")
    case None
    with s ButtonPress show ?thesis by (simp add: click_def)
  next
    case (Some k)
    then have "k < length (points scr)" using first_near_less by fastforce
    with s Some ButtonPress show ?thesis by (simp add: click_def sound_screen_def wf_screen_def)
  qed
next
  case (Motion x y)
  assume s: "sound_screen scr"
  with Motion show ?thesis
    by (simp add: sound_screen_def wf_screen_def sticks_drag length_points_drag tempPoint_drag
        split: option.splits)
next
  case (ButtonRelease x y)
  assume s: "sound_screen scr"
  from release_cases [of scr x y] consider
      (same) "sticks (release scr x y) = sticks scr"
        "length (points scr) \<le> length (points (release scr x y))"
        "tempPoint (release scr x y) = tempPoint scr \<or> tempPoint (release scr x y) = None"
    | (stick) t k where "tempPoint scr = Some t" "k < length (points scr)"
        "release scr x y = create_stick scr t k"
    by auto
  then have "sound_screen (release scr x y)"
  proof cases
    case same
    from s same(1,2) have "wf_screen (release scr x y)"
      unfolding sound_screen_def wf_screen_def by (auto intro: less_le_trans)
    moreover from s same(2,3)
    have "case tempPoint (release scr x y) of None \<Rightarrow> True
        | Some t \<Rightarrow> t < length (points (release scr x y))"
      unfolding sound_screen_def by (auto split: option.splits)
    ultimately show ?thesis by (simp add: sound_screen_def)
  next
    case stick
    with s show ?thesis
      by (auto simp: sound_screen_def wf_screen_def create_stick_def)
  qed
  with ButtonRelease show ?thesis by simp
qed

text \<open>Every state that the event handlers reach from the empty screen is well formed.\<close>

lemma reachable_wf: "wf_screen (mainloop d init_screen evs)"
proof -
  have "sound_screen scr \<Longrightarrow> sound_screen (mainloop d scr evs)" for scr
  proof (induction evs arbitrary: scr)
    case Nil
    then show ?case by (simp add: mainloop_def)
  next
    case (Cons ev evs)
    from Cons.prems have "sound_screen (handle d scr ev)" by (rule sound_handle)
    then have "sound_screen (mainloop d (handle d scr ev) evs)" by (rule Cons.IH)
    then show ?case by (simp add: mainloop_def)
  qed
  moreover have "sound_screen init_screen"
    by (simp add: sound_screen_def wf_screen_def init_screen_def)
  ultimately show ?thesis by (simp add: sound_screen_def)
qed

lemma sketch_run:
  "mainloop d init_screen sketch_events =
     \<lparr>points = [pt 0 0 False, pt 100 0 False], sticks = [stk 0 1 100],
      tempPoint = Some 0, moving_point = None\<rparr>"
  by (simp add: mainloop_def sketch_events_def init_screen_def release_def click_def
      create_point_def create_stick_def new_point_def event_pos_def near_def POINT_SIZE_def
      pt_def stk_def fsub_def)

section \<open>The claims\<close>

text \<open>
  C1 fails as stated: the first stick of \<open>two_anchor_demo\<close> has exactly one locked endpoint
  and length 100; the run returns, no coordinate leaves the finite numbers, and the stick's
  endpoints end up 1100 apart, because the second stick corrects the shared joint last.
\<close>

theorem shared_joint_leaves_stick_violated:
  "locked (points two_anchor_demo ! pointA (sticks two_anchor_demo ! 0)) \<and>
   \<not> locked (points two_anchor_demo ! pointB (sticks two_anchor_demo ! 0)) \<and>
   length_s (sticks two_anchor_demo ! 0) = Fin 100 \<and>
   returned (simulate_frame 7 two_anchor_demo) \<and>
   position (points (final (simulate_frame 7 two_anchor_demo)) ! pointA (sticks two_anchor_demo ! 0)) =
     (Fin 0, Fin 0) \<and>
   position (points (final (simulate_frame 7 two_anchor_demo)) ! pointB (sticks two_anchor_demo ! 0)) =
     (Fin 1100, Fin 0) \<and>
   distance (vsub
     (position (points (final (simulate_frame 7 two_anchor_demo)) ! pointA (sticks two_anchor_demo ! 0)))
     (position (points (final (simulate_frame 7 two_anchor_demo)) ! pointB (sticks two_anchor_demo ! 0)))) =
     Fin 1100"
proof -
  define s where "s = two_anchor_demo\<lparr>points :=
      [pt 0 0 True, pt 2000 0 True, (pt 100 0 False)\<lparr>position := (Fin 1100, Fin 0)\<rparr>]\<rparr>"
  have 1: "sweep 7 two_anchor_demo [0..<length (sticks two_anchor_demo)] = Returned s"
    by (simp add: s_def two_anchor_demo_def demo_simps)
  have 2: "sweep 7 s [0..<length (sticks s)] = Returned s"
    by (simp add: s_def two_anchor_demo_def demo_simps)
  from 1 2 have "iterations (Suc 9) 7 two_anchor_demo = Returned s" by (rule iterations_after_sweep)
  then have "simulate_frame 7 two_anchor_demo = Returned s"
    by (simp add: simulate_frame_def STICK_ITERATIONS_def)
  then show ?thesis by (simp add: s_def two_anchor_demo_def pt_def stk_def fsub_def)
qed

text \<open>
  C1 (as amended). Take a stick with one locked and one unlocked endpoint, with finite and
  distinct endpoint positions and a positive length, whose unlocked endpoint the sweep
  corrects through this stick only: no call of \<open>calculate_joint\<close> that the sweep makes has
  that point as its joint, except the one on this stick. That is so when the point is an
  endpoint of no other stick (lemma \<open>leaf_single_route\<close>), and for the first stick of a
  chain that hangs from one anchor.
  After a run of the solver with at least one iteration that returns, the distance between
  the stick's endpoints is exactly its length. (\<open>simulate_frame\<close> runs
  \<open>STICK_ITERATIONS\<close>, that is 10, iterations.)
\<close>

theorem anchored_stick_length_restored:
  "wf_screen scr \<Longrightarrow> i < length (sticks scr) \<Longrightarrow>
   locked (points scr ! other_end (sticks scr ! i) l) \<Longrightarrow>
   \<not> locked (points scr ! end_of (sticks scr ! i) l) \<Longrightarrow>
   (\<forall>c. called scr c \<and> end_of (sticks scr ! fst c) (snd c) = end_of (sticks scr ! i) l \<longrightarrow>
      c = (i, l)) \<Longrightarrow>
   position (points scr ! end_of (sticks scr ! i) l) = (Fin a, Fin b) \<Longrightarrow>
   position (points scr ! other_end (sticks scr ! i) l) = (Fin c, Fin d) \<Longrightarrow>
   a \<noteq> c \<or> b \<noteq> d \<Longrightarrow>
   length_s (sticks scr ! i) = Fin r \<Longrightarrow> 0 < r \<Longrightarrow>
   returned (iterations (Suc n) m scr) \<Longrightarrow>
   distance (vsub
     (position (points (final (iterations (Suc n) m scr)) ! pointA (sticks scr ! i)))
     (position (points (final (iterations (Suc n) m scr)) ! pointB (sticks scr ! i)))) = Fin r"
proof -
  assume h: "wf_screen scr" "i < length (sticks scr)"
    "locked (points scr ! other_end (sticks scr ! i) l)"
    "\<not> locked (points scr ! end_of (sticks scr ! i) l)"
    "\<forall>c. called scr c \<and> end_of (sticks scr ! fst c) (snd c) = end_of (sticks scr ! i) l \<longrightarrow>
      c = (i, l)"
    "position (points scr ! end_of (sticks scr ! i) l) = (Fin a, Fin b)"
    "position (points scr ! other_end (sticks scr ! i) l) = (Fin c, Fin d)"
    "a \<noteq> c \<or> b \<noteq> d" "length_s (sticks scr ! i) = Fin r" "0 < r"
    "returned (iterations (Suc n) m scr)"
  let ?f = "final (iterations (Suc n) m scr)"
  from single_route_iterations [OF h] obtain x y where
    j: "position (points ?f ! end_of (sticks scr ! i) l) = (Fin x, Fin y)"
    and an: "position (points ?f ! other_end (sticks scr ! i) l) = (Fin c, Fin d)"
    and dd: "distance (vsub (Fin x, Fin y) (Fin c, Fin d)) = Fin r" by blast
  from dd have dd': "distance (vsub (Fin c, Fin d) (Fin x, Fin y)) = Fin r"
    by (simp only: distance_vsub_sym)
  show ?thesis
  proof (cases l)
    case A
    with j an dd show ?thesis by (simp add: end_of_def other_end_def)
  next
    case B
    with j an dd' show ?thesis by (simp add: end_of_def other_end_def)
  qed
qed

theorem anchored_stick_length_restored_witness:
  "wf_screen chain_demo \<and> locked (points chain_demo ! 0) \<and> \<not> locked (points chain_demo ! 1) \<and>
   position (points chain_demo ! 0) = (Fin (- 10), Fin 0) \<and>
   position (points chain_demo ! 1) = (Fin 50, Fin 0) \<and>
   sticks chain_demo ! 0 = stk 0 1 50 \<and>
   returned (simulate_frame 7 chain_demo) \<and>
   distance (vsub (position (points (final (simulate_frame 7 chain_demo)) ! 0))
                  (position (points (final (simulate_frame 7 chain_demo)) ! 1))) = Fin 50"
proof -
  have wf: "wf_screen chain_demo" by (simp add: wf_screen_def chain_demo_def stk_def)
  have i: "0 < length (sticks chain_demo)" by (simp add: chain_demo_def)
  have an: "locked (points chain_demo ! other_end (sticks chain_demo ! 0) B)"
    and jo: "\<not> locked (points chain_demo ! end_of (sticks chain_demo ! 0) B)"
    and pj: "position (points chain_demo ! end_of (sticks chain_demo ! 0) B) = (Fin 50, Fin 0)"
    and pa: "position (points chain_demo ! other_end (sticks chain_demo ! 0) B) = (Fin (- 10), Fin 0)"
    and len: "length_s (sticks chain_demo ! 0) = Fin 50"
    by (simp_all add: chain_demo_def pt_def stk_def end_of_def other_end_def)
  have only: "\<forall>c. called chain_demo c \<and>
      end_of (sticks chain_demo ! fst c) (snd c) = end_of (sticks chain_demo ! 0) B \<longrightarrow> c = (0, B)"
  proof (intro allI impI)
    fix c assume c: "called chain_demo c \<and>
      end_of (sticks chain_demo ! fst c) (snd c) = end_of (sticks chain_demo ! 0) B"
    then have "c = (0, B) \<or> c = (Suc 0, B)" using chain_demo_called by blast
    moreover have "end_of (sticks chain_demo ! Suc 0) B \<noteq> end_of (sticks chain_demo ! 0) B"
      by (simp add: chain_demo_def stk_def end_of_def)
    ultimately show "c = (0, B)" using c by auto
  qed
  have apart: "(50::real) \<noteq> - 10 \<or> (0::real) \<noteq> 0" and r: "(0::real) < 50" by simp_all
  have sf: "simulate_frame 7 chain_demo = iterations (Suc 9) 7 chain_demo"
    by (simp add: simulate_frame_def STICK_ITERATIONS_def)
  have n0: "next_call chain_demo (0, B) = Some (Suc 0, B)"
    and n1: "next_call chain_demo (Suc 0, B) = None"
    by (simp_all add: next_call_def chain_demo_def pt_def stk_def end_of_def other_sticks_def)
  then have "chain_ends 7 chain_demo (0, B)" by (simp add: eval_nat_numeral)
  moreover have "starts chain_demo 0 = Some B" "starts chain_demo (Suc 0) = None"
    by (simp_all add: starts_def chain_demo_def pt_def stk_def)
  moreover have "[0..<length (sticks chain_demo)] = [0, Suc 0]" by (simp add: chain_demo_def)
  ultimately have "walks_end 7 chain_demo [0..<length (sticks chain_demo)]"
    by (simp add: walks_end_def)
  with wf have run: "returned (iterations (Suc 9) 7 chain_demo)"
    by (simp add: returned_iterations)
  from anchored_stick_length_restored [OF wf i an jo only pj pa apart len r run]
  have "distance (vsub
     (position (points (final (iterations (Suc 9) 7 chain_demo)) ! pointA (sticks chain_demo ! 0)))
     (position (points (final (iterations (Suc 9) 7 chain_demo)) ! pointB (sticks chain_demo ! 0)))) = Fin 50" .
  moreover have "pointA (sticks chain_demo ! 0) = 0" "pointB (sticks chain_demo ! 0) = 1"
    "sticks chain_demo ! 0 = stk 0 1 50"
    by (simp_all add: chain_demo_def stk_def)
  moreover have "locked (points chain_demo ! 0)" "\<not> locked (points chain_demo ! 1)"
    "position (points chain_demo ! 0) = (Fin (- 10), Fin 0)"
    "position (points chain_demo ! 1) = (Fin 50, Fin 0)"
    by (simp_all add: chain_demo_def pt_def)
  ultimately show ?thesis using wf run by (simp add: sf)
qed

text \<open>
  C2. A locked point keeps its position through a run of the solver, for every number of
  iterations and every recursion limit, whether the run returns or is cut short by
  \<open>RecursionError\<close>.
\<close>

theorem locked_point_never_moved:
  "p < length (points scr) \<Longrightarrow> locked (points scr ! p) \<Longrightarrow>
   position (points (final (iterations n d scr)) ! p) = position (points scr ! p) \<and>
   position (points (final (simulate_frame d scr)) ! p) = position (points scr ! p)"
proof -
  assume p: "p < length (points scr)" "locked (points scr ! p)"
  have "frame_kept scr (final (iterations m d scr))" for m
    by (rule frame_kept_iterations)
  with p have "position (points (final (iterations m d scr)) ! p) = position (points scr ! p)" for m
    by (simp add: frame_kept_def)
  then show ?thesis by (simp add: simulate_frame_def)
qed

theorem locked_point_never_moved_witness:
  "0 < length (points chain_demo) \<and> locked (points chain_demo ! 0) \<and>
   position (points (final (iterations 3 7 chain_demo)) ! 0) = (Fin (- 10), Fin 0) \<and>
   position (points (final (simulate_frame 7 chain_demo)) ! 0) = (Fin (- 10), Fin 0)"
  using locked_point_never_moved [of 0 chain_demo 3 7]
  by (simp add: chain_demo_def pt_def)

text \<open>
  C3 fails as stated: \<open>create_stick\<close> has no failure path, and called with the same point
  twice it appends a stick from the point to itself.
\<close>

theorem self_stick_is_appended:
  "sticks (create_stick lone_demo 1 1) = [stk 0 1 100, stk 1 1 0] \<and>
   points (create_stick lone_demo 1 1) = points lone_demo"
  by (simp add: create_stick_def lone_demo_def pt_def stk_def fsub_def)

text \<open>
  C3 (as amended). \<open>create_stick\<close> appends one stick for any two endpoint arguments, equal
  or not, and leaves the points alone. Its only caller, \<open>release\<close>, calls it with two
  different points or not at all, so no sequence of pointer events on the empty screen
  produces a stick from a point to itself.
\<close>

theorem create_stick_always_appends:
  "sticks (create_stick scr a b) = sticks scr @
     [\<lparr>pointA = a, pointB = b,
       length_s = distance (vsub (position (points scr ! a)) (position (points scr ! b)))\<rparr>] \<and>
   points (create_stick scr a b) = points scr \<and>
   (sticks (release scr x y) = sticks scr \<or>
    (\<exists>t k. t \<noteq> k \<and> tempPoint scr = Some t \<and> release scr x y = create_stick scr t k)) \<and>
   no_self_stick (mainloop d init_screen evs)"
proof -
  have "no_self_stick init_screen" by (simp add: no_self_stick_def init_screen_def)
  then have "no_self_stick (mainloop d init_screen evs)" by (rule no_self_stick_mainloop)
  moreover from release_cases [of scr x y]
  have "sticks (release scr x y) = sticks scr \<or>
    (\<exists>t k. t \<noteq> k \<and> tempPoint scr = Some t \<and> release scr x y = create_stick scr t k)"
    by blast
  ultimately show ?thesis by (simp add: create_stick_def)
qed

theorem create_stick_always_appends_witness:
  "sticks (mainloop 7 init_screen sketch_events) = [stk 0 1 100] \<and>
   no_self_stick (mainloop 7 init_screen sketch_events)"
  using create_stick_always_appends [of init_screen 0 0 0 0 7 sketch_events]
  by (simp add: sketch_run)

text \<open>
  C4 fails as stated: with the anchor on the joint, \<open>calculate_joint\<close> returns as usual
  and the joint's coordinates are \<open>nan\<close> afterwards.
\<close>

theorem coincident_joint_becomes_nan:
  "\<not> locked (points coincident_demo ! 1) \<and>
   position (points coincident_demo ! 0) = position (points coincident_demo ! 1) \<and>
   returned (calculate_joint 3 coincident_demo 0 B) \<and>
   position (points (final (calculate_joint 3 coincident_demo 0 B)) ! 1) = (NaN, NaN)"
  by (simp add: coincident_demo_def demo_simps inf_signed_def)

text \<open>
  C4 (as amended). When the joint is unlocked and lies exactly on the other endpoint of
  the stick, \<open>calculate_joint\<close> divides zero by zero and the joint's position is
  \<open>(nan, nan)\<close> when the call ends, whichever way it ends.
\<close>

theorem degenerate_direction_writes_nan:
  "end_of (sticks scr ! i) l < length (points scr) \<Longrightarrow>
   \<not> locked (points scr ! end_of (sticks scr ! i) l) \<Longrightarrow>
   position (points scr ! end_of (sticks scr ! i) l) = (Fin a, Fin b) \<Longrightarrow>
   position (points scr ! other_end (sticks scr ! i) l) = (Fin a, Fin b) \<Longrightarrow>
   position (points (final (calculate_joint (Suc d) scr i l)) ! end_of (sticks scr ! i) l) =
     (NaN, NaN)"
  by (rule degenerate_writes_nan)

theorem degenerate_direction_writes_nan_witness:
  "end_of (sticks coincident_demo ! 0) B < length (points coincident_demo) \<and>
   \<not> locked (points coincident_demo ! end_of (sticks coincident_demo ! 0) B) \<and>
   position (points coincident_demo ! end_of (sticks coincident_demo ! 0) B) = (Fin 10, Fin 10) \<and>
   position (points coincident_demo ! other_end (sticks coincident_demo ! 0) B) = (Fin 10, Fin 10) \<and>
   position (points (final (calculate_joint (Suc 5) coincident_demo 0 B)) !
     end_of (sticks coincident_demo ! 0) B) = (NaN, NaN)"
proof -
  have h: "end_of (sticks coincident_demo ! 0) B < length (points coincident_demo)"
    "\<not> locked (points coincident_demo ! end_of (sticks coincident_demo ! 0) B)"
    "position (points coincident_demo ! end_of (sticks coincident_demo ! 0) B) = (Fin 10, Fin 10)"
    "position (points coincident_demo ! other_end (sticks coincident_demo ! 0) B) = (Fin 10, Fin 10)"
    by (simp_all add: coincident_demo_def pt_def stk_def end_of_def other_end_def)
  from h degenerate_direction_writes_nan [OF h, of 5] show ?thesis by blast
qed

text \<open>
  C5 fails as stated: in \<open>cycle_demo\<close>, a well-formed skeleton, the chain walk from the
  anchor never ends, and under every recursion limit the run is cut short by
  \<open>RecursionError\<close>.
\<close>

theorem cycle_never_returns:
  "wf_screen cycle_demo \<and> \<not> (\<exists>d. returned (simulate_frame d cycle_demo))"
proof -
  have wf: "wf_screen cycle_demo"
    by (simp add: wf_screen_def cycle_demo_def stk_def)
  have s: "starts cycle_demo 3 = Some B"
    by (simp add: starts_def cycle_demo_def pt_def stk_def)
  have "\<not> chain_ends d cycle_demo (3, B)" for d
    using cycle_demo_loops by (cases d) (simp_all add: cycle_demo_route)
  moreover have "(3::nat) \<in> set [0..<length (sticks cycle_demo)]" by (simp add: cycle_demo_def)
  ultimately have "\<not> walks_end d cycle_demo [0..<length (sticks cycle_demo)]" for d
    using s unfolding walks_end_def by force
  with wf show ?thesis by (simp add: returned_simulate_frame)
qed

text \<open>
  C5 (as amended). Whether a run of the solver returns depends on the sticks and the lock
  flags only, not on the positions: given room for twice as many nested calls as there are
  sticks, it returns exactly when each chain walk that the sweep starts is finite, that is,
  reaches a locked joint or a joint with no other stick.
\<close>

theorem solver_returns_iff_walks_end:
  "wf_screen scr \<Longrightarrow> 2 * length (sticks scr) \<le> d \<Longrightarrow>
   returned (simulate_frame d scr) =
     (\<forall>i < length (sticks scr). \<forall>l. starts scr i = Some l \<longrightarrow> (\<exists>m. chain_ends m scr (i, l)))"
proof -
  assume wf: "wf_screen scr" and d: "2 * length (sticks scr) \<le> d"
  have "chain_ends d scr (i, l) = (\<exists>m. chain_ends m scr (i, l))" if "i < length (sticks scr)" for i l
  proof
    assume "chain_ends d scr (i, l)"
    then show "\<exists>m. chain_ends m scr (i, l)" ..
  next
    assume "\<exists>m. chain_ends m scr (i, l)"
    then obtain m where "chain_ends m scr (i, l)" ..
    with that have "chain_ends (2 * length (sticks scr)) scr (i, l)"
      by (intro chain_ends_bound) simp_all
    then show "chain_ends d scr (i, l)" using d by (rule chain_ends_mono)
  qed
  then have "walks_end d scr [0..<length (sticks scr)] =
      (\<forall>i < length (sticks scr). \<forall>l. starts scr i = Some l \<longrightarrow> (\<exists>m. chain_ends m scr (i, l)))"
    by (auto simp: walks_end_def split: option.splits)
  with wf show ?thesis by (simp add: returned_simulate_frame)
qed

theorem solver_returns_iff_walks_end_witness:
  "wf_screen chain_demo \<and> 2 * length (sticks chain_demo) \<le> 4 \<and>
   returned (simulate_frame 4 chain_demo)"
proof -
  have wf: "wf_screen chain_demo"
    by (simp add: wf_screen_def chain_demo_def stk_def)
  have len: "2 * length (sticks chain_demo) \<le> 4" by (simp add: chain_demo_def)
  have s0: "starts chain_demo 0 = Some B" and s1: "starts chain_demo (Suc 0) = None"
    by (simp_all add: starts_def chain_demo_def pt_def stk_def)
  have n0: "next_call chain_demo (0, B) = Some (Suc 0, B)"
    and n1: "next_call chain_demo (Suc 0, B) = None"
    by (simp_all add: next_call_def chain_demo_def pt_def stk_def end_of_def other_sticks_def)
  have ce: "chain_ends (Suc (Suc 0)) chain_demo (0, B)"
    by (simp add: n0 n1)
  have len2: "length (sticks chain_demo) = 2" by (simp add: chain_demo_def)
  have "\<exists>m. chain_ends m chain_demo (i, l)"
    if "i < length (sticks chain_demo)" "starts chain_demo i = Some l" for i l
  proof -
    from that(1) have "i = 0 \<or> i = Suc 0" by (auto simp: len2)
    with that(2) s0 s1 have "i = 0 \<and> l = B" by auto
    with ce show ?thesis by blast
  qed
  then have "\<forall>i < length (sticks chain_demo). \<forall>l. starts chain_demo i = Some l \<longrightarrow>
      (\<exists>m. chain_ends m chain_demo (i, l))"
    by blast
  with solver_returns_iff_walks_end [OF wf len] wf len show ?thesis by simp
qed




text \<open>
  C7 fails as stated: in \<open>circles_demo\<close> both runs return, every coordinate stays finite,
  and the second run moves the joint again.
\<close>

theorem second_run_still_moves:
  "returned (simulate_frame 7 circles_demo) \<and>
   returned (simulate_frame 7 (final (simulate_frame 7 circles_demo))) \<and>
   is_fin (fst (position (points (final (simulate_frame 7 circles_demo)) ! 2))) \<and>
   is_fin (snd (position (points (final (simulate_frame 7 circles_demo)) ! 2))) \<and>
   is_fin (fst (position (points (final (simulate_frame 7 (final (simulate_frame 7 circles_demo)))) ! 2))) \<and>
   is_fin (snd (position (points (final (simulate_frame 7 (final (simulate_frame 7 circles_demo)))) ! 2))) \<and>
   position (points (final (simulate_frame 7 (final (simulate_frame 7 circles_demo)))) ! 2) \<noteq>
   position (points (final (simulate_frame 7 circles_demo)) ! 2)"
proof -
  have run: "simulate_frame 7 (circles_at p) = Returned (circles_at ((circles_step ^^ Suc 9) p))" for p
    using circles_iterations [of "Suc 9" 5 p]
    by (simp add: simulate_frame_def STICK_ITERATIONS_def eval_nat_numeral)
  have pos: "position (points (circles_at p) ! 2) = p" for p
    by (simp add: circles_at_def pt_def)
  have "(1::real) \<le> 2" "(0::real) < 1" by simp_all
  from circles_steps_descend [OF this, of 9] obtain x1 y1 where
    1: "(circles_step ^^ Suc 9) (Fin 2, Fin 1) = (Fin x1, Fin y1)" "1 \<le> x1" "0 < y1" by blast
  from circles_steps_descend [OF 1(2,3), of 9] obtain x2 y2 where
    2: "(circles_step ^^ Suc 9) (Fin x1, Fin y1) = (Fin x2, Fin y2)" "y2 < y1" by blast
  have f1: "simulate_frame 7 circles_demo = Returned (circles_at (Fin x1, Fin y1))"
    unfolding circles_demo_def by (simp only: run 1(1))
  have f2: "simulate_frame 7 (circles_at (Fin x1, Fin y1)) = Returned (circles_at (Fin x2, Fin y2))"
    by (simp only: run 2(1))
  from 2(2) show ?thesis by (simp add: f1 f2 pos)
qed

text \<open>
  C7 (as amended), in exact real arithmetic. Let no unlocked joint be the joint of two of
  the calls that a sweep makes, let the sticks that are corrected have finite positive
  lengths, let the first call return, and let no degenerate direction occur in it: the
  joints that it corrects are at finite positions when it ends (a direction of length zero
  gives \<open>nan\<close>, which stays). Then the second call returns and changes nothing, whatever
  the first call has moved.
\<close>

theorem single_route_second_call_changes_nothing:
  "wf_screen scr \<Longrightarrow>
   (\<forall>c c'. called scr c \<and> called scr c' \<and>
      \<not> locked (points scr ! end_of (sticks scr ! fst c) (snd c)) \<and>
      end_of (sticks scr ! fst c) (snd c) = end_of (sticks scr ! fst c') (snd c') \<longrightarrow> c = c') \<Longrightarrow>
   (\<forall>c. called scr c \<and> \<not> locked (points scr ! end_of (sticks scr ! fst c) (snd c)) \<longrightarrow>
      (\<exists>r. length_s (sticks scr ! fst c) = Fin r \<and> 0 < r)) \<Longrightarrow>
   returned (simulate_frame d scr) \<Longrightarrow>
   (\<forall>c. called scr c \<and> \<not> locked (points scr ! end_of (sticks scr ! fst c) (snd c)) \<longrightarrow>
      is_fin (fst (position (points (final (simulate_frame d scr)) ! end_of (sticks scr ! fst c) (snd c)))) \<and>
      is_fin (snd (position (points (final (simulate_frame d scr)) ! end_of (sticks scr ! fst c) (snd c))))) \<Longrightarrow>
   returned (simulate_frame d (final (simulate_frame d scr))) \<and>
   final (simulate_frame d (final (simulate_frame d scr))) = final (simulate_frame d scr)"
proof -
  assume wf: "wf_screen scr"
    and single: "\<forall>c c'. called scr c \<and> called scr c' \<and>
      \<not> locked (points scr ! end_of (sticks scr ! fst c) (snd c)) \<and>
      end_of (sticks scr ! fst c) (snd c) = end_of (sticks scr ! fst c') (snd c') \<longrightarrow> c = c'"
    and lens: "\<forall>c. called scr c \<and> \<not> locked (points scr ! end_of (sticks scr ! fst c) (snd c)) \<longrightarrow>
      (\<exists>r. length_s (sticks scr ! fst c) = Fin r \<and> 0 < r)"
    and run: "returned (simulate_frame d scr)"
    and fin: "\<forall>c. called scr c \<and> \<not> locked (points scr ! end_of (sticks scr ! fst c) (snd c)) \<longrightarrow>
      is_fin (fst (position (points (final (simulate_frame d scr)) ! end_of (sticks scr ! fst c) (snd c)))) \<and>
      is_fin (snd (position (points (final (simulate_frame d scr)) ! end_of (sticks scr ! fst c) (snd c))))"
  let ?f = "final (simulate_frame d scr)"
  have sf: "simulate_frame d s = iterations (Suc 9) d s" for s
    by (simp add: simulate_frame_def STICK_ITERATIONS_def)
  have fk: "frame_kept scr ?f" by (rule frame_kept_simulate_frame)
  then have st: "sticks ?f = sticks scr" by (simp add: frame_kept_def)
  from fk wf have wf': "wf_screen ?f" by (rule wf_screen_frame)
  have "walks_end d ?f [0..<length (sticks scr)] = walks_end d scr [0..<length (sticks scr)]"
    using fk wf by (rule walks_end_frame) simp
  with run have ret: "returned (simulate_frame d ?f)"
    by (simp add: returned_simulate_frame [OF wf] returned_simulate_frame [OF wf'] st)
  have "satisfied ?f (sticks ?f ! fst c)"
    if c: "called ?f c" "\<not> locked (points ?f ! end_of (sticks ?f ! fst c) (snd c))" for c
  proof -
    let ?S = "sticks scr ! fst c"
    from fk wf c(1) have cc: "called scr c" by (rule called_frame)
    from wf called_less [OF cc] have "end_of ?S (snd c) < length (points scr)" by (rule end_of_less)
    with fk c(2) have ul: "\<not> locked (points scr ! end_of ?S (snd c))"
      by (simp add: frame_kept_def)
    from lens cc ul obtain r where r: "length_s ?S = Fin r" "0 < r" by blast
    from fin cc ul obtain x y where xy: "position (points ?f ! end_of ?S (snd c)) = (Fin x, Fin y)"
      using is_fin_D by (metis prod.collapse)
    from run have run': "returned (iterations (Suc 9) d scr)" by (simp only: sf)
    from xy have xy': "position (points (final (iterations (Suc 9) d scr)) ! end_of ?S (snd c)) = (Fin x, Fin y)"
      by (simp only: sf)
    from single_route_settles [OF wf single lens run' cc ul xy']
    have dist: "distance (vsub (Fin x, Fin y) (position (points ?f ! other_end ?S (snd c)))) = Fin r"
      by (simp only: sf r)
    then obtain u v where uv: "position (points ?f ! other_end ?S (snd c)) = (Fin u, Fin v)"
      using distance_vsub_Fin_D by blast
    from dist uv have d1: "distance (vsub (Fin x, Fin y) (Fin u, Fin v)) = Fin r" by simp
    then have d2: "distance (vsub (Fin u, Fin v) (Fin x, Fin y)) = Fin r"
      by (simp only: distance_vsub_sym)
    have "distance (vsub (position (points ?f ! pointA ?S)) (position (points ?f ! pointB ?S))) = Fin r"
    proof (cases "snd c")
      case A
      with xy uv d1 show ?thesis by (simp add: end_of_def other_end_def)
    next
      case B
      with xy uv d2 show ?thesis by (simp add: end_of_def other_end_def)
    qed
    with r show ?thesis by (simp add: satisfied_def st)
  qed
  then have "final (iterations (Suc 9) d ?f) = ?f"
    by (intro corrected_sticks_satisfied_fixed) blast
  then have "final (simulate_frame d ?f) = ?f" by (simp only: sf)
  with ret show ?thesis by simp
qed

theorem single_route_second_call_changes_nothing_witness:
  "wf_screen chain_demo \<and> returned (simulate_frame 7 chain_demo) \<and>
   position (points chain_demo ! 1) = (Fin 50, Fin 0) \<and>
   position (points chain_demo ! 2) = (Fin 100, Fin 0) \<and>
   position (points (final (simulate_frame 7 chain_demo)) ! 1) = (Fin 40, Fin 0) \<and>
   position (points (final (simulate_frame 7 chain_demo)) ! 2) = (Fin 90, Fin 0) \<and>
   returned (simulate_frame 7 (final (simulate_frame 7 chain_demo))) \<and>
   final (simulate_frame 7 (final (simulate_frame 7 chain_demo))) = final (simulate_frame 7 chain_demo)"
proof -
  have wf: "wf_screen chain_demo" by (simp add: wf_screen_def chain_demo_def stk_def)
  have run: "simulate_frame 7 chain_demo = Returned chain_moved"
    using chain_demo_run [of 5] by (simp add: eval_nat_numeral)
  have j: "end_of (sticks chain_demo ! fst c) (snd c) = (if c = (0, B) then 1 else 2)"
    "\<exists>r. length_s (sticks chain_demo ! fst c) = Fin r \<and> 0 < r"
    if "called chain_demo c" for c
    using chain_demo_called [OF that] by (auto simp: chain_demo_def stk_def end_of_def)
  have single: "\<forall>c c'. called chain_demo c \<and> called chain_demo c' \<and>
      \<not> locked (points chain_demo ! end_of (sticks chain_demo ! fst c) (snd c)) \<and>
      end_of (sticks chain_demo ! fst c) (snd c) = end_of (sticks chain_demo ! fst c') (snd c') \<longrightarrow> c = c'"
  proof (intro allI impI)
    fix c c' assume h: "called chain_demo c \<and> called chain_demo c' \<and>
      \<not> locked (points chain_demo ! end_of (sticks chain_demo ! fst c) (snd c)) \<and>
      end_of (sticks chain_demo ! fst c) (snd c) = end_of (sticks chain_demo ! fst c') (snd c')"
    then have "c = (0, B) \<or> c = (Suc 0, B)" "c' = (0, B) \<or> c' = (Suc 0, B)"
      using chain_demo_called by blast+
    with h show "c = c'" by (auto simp: chain_demo_def stk_def end_of_def)
  qed
  have lens: "\<forall>c. called chain_demo c \<and>
      \<not> locked (points chain_demo ! end_of (sticks chain_demo ! fst c) (snd c)) \<longrightarrow>
      (\<exists>r. length_s (sticks chain_demo ! fst c) = Fin r \<and> 0 < r)"
    using j(2) by blast
  have ret: "returned (simulate_frame 7 chain_demo)" by (simp add: run)
  have before: "position (points chain_demo ! 1) = (Fin 50, Fin 0)"
    "position (points chain_demo ! 2) = (Fin 100, Fin 0)"
    by (simp_all add: chain_demo_def pt_def)
  have moved: "position (points chain_moved ! Suc 0) = (Fin 40, Fin 0)"
    "position (points chain_moved ! 2) = (Fin 90, Fin 0)"
    by (simp_all add: chain_moved_def pt_def)
  have pos: "position (points (final (simulate_frame 7 chain_demo)) ! 1) = (Fin 40, Fin 0)"
    "position (points (final (simulate_frame 7 chain_demo)) ! 2) = (Fin 90, Fin 0)"
    by (simp_all add: run moved)
  have fin: "\<forall>c. called chain_demo c \<and>
      \<not> locked (points chain_demo ! end_of (sticks chain_demo ! fst c) (snd c)) \<longrightarrow>
      is_fin (fst (position (points (final (simulate_frame 7 chain_demo)) !
        end_of (sticks chain_demo ! fst c) (snd c)))) \<and>
      is_fin (snd (position (points (final (simulate_frame 7 chain_demo)) !
        end_of (sticks chain_demo ! fst c) (snd c))))"
    using j(1) pos by simp
  from single_route_second_call_changes_nothing [OF wf single lens ret fin] wf ret before pos
  show ?thesis by simp
qed

text \<open>
  C8 fails as stated: between two different points at the same position, \<open>create_stick\<close>
  creates a stick of length 0.
\<close>

theorem zero_length_stick_is_created:
  "(0::nat) \<noteq> 1 \<and>
   position (points coincident_demo ! 0) = position (points coincident_demo ! 1) \<and>
   sticks (create_stick coincident_demo 0 1) = [stk 0 1 25, stk 0 1 0]"
  by (simp add: create_stick_def coincident_demo_def pt_def stk_def fsub_def)

text \<open>
  C8 (as amended). For endpoints at finite positions, the length of a new stick is the
  Euclidean distance between them, a real number that is not negative. No later run of
  the solver and no later pointer event changes the sticks that exist: the list of sticks
  only grows at its end.
\<close>

theorem stick_length_fixed_at_creation:
  "(position (points scr ! a) = (Fin x1, Fin y1) \<and> position (points scr ! b) = (Fin x2, Fin y2) \<longrightarrow>
      sticks (create_stick scr a b) = sticks scr @
        [\<lparr>pointA = a, pointB = b, length_s = Fin (sqrt ((x1 - x2)\<^sup>2 + (y1 - y2)\<^sup>2))\<rparr>] \<and>
      0 \<le> sqrt ((x1 - x2)\<^sup>2 + (y1 - y2)\<^sup>2)) \<and>
   sticks (final (simulate_frame d scr)) = sticks scr \<and>
   take (length (sticks scr)) (sticks (mainloop d scr evs)) = sticks scr"
proof -
  have "\<not> (x1 - x2) * (x1 - x2) + (y1 - y2) * (y1 - y2) < 0"
    by (simp add: not_less add_nonneg_nonneg)
  then have "distance (vsub (Fin x1, Fin y1) (Fin x2, Fin y2)) =
      Fin (sqrt ((x1 - x2)\<^sup>2 + (y1 - y2)\<^sup>2))"
    by (simp add: fsub_def power2_eq_square)
  moreover have "sticks (final (simulate_frame d scr)) = sticks scr"
    using frame_kept_simulate_frame [of scr d] by (simp add: frame_kept_def)
  ultimately show ?thesis
    by (simp add: create_stick_def sticks_mainloop del: distance.simps)
qed

theorem stick_length_fixed_at_creation_witness:
  "position (points lone_demo ! 0) = (Fin 0, Fin 0) \<and>
   position (points lone_demo ! 1) = (Fin 30, Fin 40) \<and>
   sticks (create_stick lone_demo 0 1) = [stk 0 1 100, stk 0 1 50] \<and>
   sticks (final (simulate_frame 7 lone_demo)) = [stk 0 1 100] \<and>
   take 1 (sticks (mainloop 7 lone_demo sketch_events)) = [stk 0 1 100]"
proof -
  have p: "position (points lone_demo ! 0) = (Fin 0, Fin 0) \<and>
      position (points lone_demo ! 1) = (Fin 30, Fin 40)"
    by (simp add: lone_demo_def pt_def)
  have s: "sticks lone_demo = [stk 0 1 100]" by (simp add: lone_demo_def)
  have "sqrt ((0 - 30)\<^sup>2 + (0 - 40)\<^sup>2) = (50::real)" by simp
  with stick_length_fixed_at_creation [of lone_demo 0 0 0 1 30 40 7 sketch_events] p
  show ?thesis by (simp add: s stk_def)
qed

text \<open>
  C9. After correcting an unlocked joint, \<open>calculate_joint\<close> returns if no stick other
  than the current one has the joint as an endpoint; otherwise it makes exactly one
  recursive call, on the first such stick in insertion order, towards that stick's other
  endpoint, and its result is the result of that call.
\<close>

theorem chain_walk_first_match:
  "\<not> locked (points scr ! end_of (sticks scr ! i) l) \<Longrightarrow>
   ((\<forall>k < length (sticks scr). k \<noteq> i \<longrightarrow> \<not> touches (sticks scr ! k) (end_of (sticks scr ! i) l)) \<longrightarrow>
      calculate_joint (Suc d) scr i l = Returned (snap scr i l)) \<and>
   (\<forall>k < length (sticks scr).
      k \<noteq> i \<and> touches (sticks scr ! k) (end_of (sticks scr ! i) l) \<and>
      (\<forall>k' < k. k' \<noteq> i \<longrightarrow> \<not> touches (sticks scr ! k') (end_of (sticks scr ! i) l)) \<longrightarrow>
      calculate_joint (Suc d) scr i l =
        calculate_joint d (snap scr i l) k
          (if pointA (sticks scr ! k) = end_of (sticks scr ! i) l then B else A))"
proof -
  assume u: "\<not> locked (points scr ! end_of (sticks scr ! i) l)"
  let ?j = "end_of (sticks scr ! i) l"
  have leaf: "calculate_joint (Suc d) scr i l = Returned (snap scr i l)"
    if "\<forall>k < length (sticks scr). k \<noteq> i \<longrightarrow> \<not> touches (sticks scr ! k) ?j"
  proof -
    from that have "first_touching (other_sticks scr i) ?j = None"
      by (simp only: first_touching_None)
    with u show ?thesis by simp
  qed
  have follow: "calculate_joint (Suc d) scr i l =
      calculate_joint d (snap scr i l) k (if pointA (sticks scr ! k) = ?j then B else A)"
    if "k < length (sticks scr)" "k \<noteq> i" "touches (sticks scr ! k) ?j"
      "\<forall>k' < k. k' \<noteq> i \<longrightarrow> \<not> touches (sticks scr ! k') ?j" for k
  proof -
    from that have "first_touching (other_sticks scr i) ?j =
        Some (k, if pointA (sticks scr ! k) = ?j then B else A)"
      by (rule first_touching_first)
    with u show ?thesis by simp
  qed
  from leaf follow show ?thesis by blast
qed

theorem chain_walk_first_match_witness:
  "calculate_joint 2 branch_demo 0 B = calculate_joint 1 (snap branch_demo 0 B) 1 B \<and>
   calculate_joint 1 branch_demo 2 B = Returned (snap branch_demo 2 B)"
proof -
  have u0: "\<not> locked (points branch_demo ! end_of (sticks branch_demo ! 0) B)"
    and u2: "\<not> locked (points branch_demo ! end_of (sticks branch_demo ! 2) B)"
    by (simp_all add: branch_demo_def pt_def stk_def end_of_def)
  have len: "1 < length (sticks branch_demo)" by (simp add: branch_demo_def)
  have t: "1 \<noteq> (0::nat) \<and> touches (sticks branch_demo ! 1) (end_of (sticks branch_demo ! 0) B) \<and>
      (\<forall>k' < 1. k' \<noteq> 0 \<longrightarrow> \<not> touches (sticks branch_demo ! k') (end_of (sticks branch_demo ! 0) B))"
    by (simp add: branch_demo_def stk_def end_of_def touches_def)
  have a: "pointA (sticks branch_demo ! 1) = end_of (sticks branch_demo ! 0) B"
    by (simp add: branch_demo_def stk_def end_of_def)
  have n: "\<forall>k < length (sticks branch_demo). k \<noteq> 2 \<longrightarrow>
      \<not> touches (sticks branch_demo ! k) (end_of (sticks branch_demo ! 2) B)"
    by (simp add: branch_demo_def stk_def end_of_def touches_def less_Suc_eq)
  have "calculate_joint (Suc 1) branch_demo 0 B =
      calculate_joint 1 (snap branch_demo 0 B) 1
        (if pointA (sticks branch_demo ! 1) = end_of (sticks branch_demo ! 0) B then B else A)"
    using chain_walk_first_match [OF u0, of 1, THEN conjunct2, rule_format, OF len t] .
  with a have "calculate_joint 2 branch_demo 0 B = calculate_joint 1 (snap branch_demo 0 B) 1 B"
    by (simp only: if_True Suc_1 simp_thms)
  moreover have "calculate_joint (Suc 0) branch_demo 2 B = Returned (snap branch_demo 2 B)"
    using chain_walk_first_match [OF u2, of 0, THEN conjunct1, THEN mp, OF n] .
  then have "calculate_joint 1 branch_demo 2 B = Returned (snap branch_demo 2 B)"
    by (simp only: One_nat_def)
  ultimately show ?thesis by (rule conjI)
qed

text \<open>
  C10. A run of the solver keeps the list of sticks (so their endpoints and lengths), the
  number of points, and each point's lock flag and \<open>prevPosition\<close>; it changes positions
  of unlocked points only. (The canvas handles that the redraw renews are not modelled.)
\<close>

theorem solver_frame:
  "sticks (final (simulate_frame d scr)) = sticks scr \<and>
   length (points (final (simulate_frame d scr))) = length (points scr) \<and>
   (\<forall>p < length (points scr).
      locked (points (final (simulate_frame d scr)) ! p) = locked (points scr ! p) \<and>
      prevPosition (points (final (simulate_frame d scr)) ! p) = prevPosition (points scr ! p) \<and>
      (locked (points scr ! p) \<longrightarrow>
         position (points (final (simulate_frame d scr)) ! p) = position (points scr ! p)))"
proof -
  have "frame_kept scr (final (simulate_frame d scr))"
    unfolding simulate_frame_def by (rule frame_kept_iterations)
  then show ?thesis by (simp add: frame_kept_def)
qed

theorem solver_frame_witness:
  "sticks (final (simulate_frame 7 chain_demo)) = [stk 0 1 50, stk 1 2 50] \<and>
   length (points (final (simulate_frame 7 chain_demo))) = 3 \<and>
   \<not> locked (points (final (simulate_frame 7 chain_demo)) ! 1) \<and>
   prevPosition (points (final (simulate_frame 7 chain_demo)) ! 1) = (Fin 50, Fin 0) \<and>
   locked (points chain_demo ! 0) \<and>
   position (points (final (simulate_frame 7 chain_demo)) ! 0) = position (points chain_demo ! 0)"
proof -
  have "(0::nat) < length (points chain_demo)" "(1::nat) < length (points chain_demo)"
    by (simp_all add: chain_demo_def)
  with solver_frame [of 7 chain_demo] show ?thesis
    by (simp add: chain_demo_def pt_def)
qed

end
